theory Spec2Isabelle
  imports Main
begin

section \<open>The JavaScript runtime: Date values and strings\<close>

text \<open>
  \<^verbatim>\<open>src/src/App.jsx\<close> uses the platform's \<^verbatim>\<open>Date\<close>. A Date holds a time value: the
  milliseconds since 1970-01-01T00:00:00Z, an integer here. The local time zone is a
  parameter \<open>tz\<close> of the model: the minutes that local time is ahead of UTC
  (330 for UTC+05:30, -300 for UTC-05:00), fixed over the range of days looked at
  (no daylight-saving change). Strings are byte strings (UTF-8).
\<close>

definition msPerDay :: int where
  "msPerDay = 86400000"

definition msPerMinute :: int where
  "msPerMinute = 60000"

text \<open>ECMAScript \<^verbatim>\<open>Day(t)\<close> and \<^verbatim>\<open>LocalTime(t)\<close>.\<close>

definition Day :: "int \<Rightarrow> int" where
  "Day t = t div msPerDay"

definition LocalTime :: "int \<Rightarrow> int \<Rightarrow> int" where
  "LocalTime tz t = t + tz * msPerMinute"

text \<open>ECMAScript \<^verbatim>\<open>WeekDay\<close> of a day number: 0 is Sunday; day 0 (1970-01-01) is a Thursday.\<close>

definition WeekDay :: "int \<Rightarrow> int" where
  "WeekDay d = (d + 4) mod 7"

text \<open>\<^verbatim>\<open>cur.getDay()\<close>: the week day of the local calendar day.\<close>

definition getDay :: "int \<Rightarrow> int \<Rightarrow> int" where
  "getDay tz t = WeekDay (Day (LocalTime tz t))"

text \<open>
  \<^verbatim>\<open>cur.setDate(cur.getDate() + 1)\<close>: ECMAScript rebuilds the time value from the local
  year and month, the day of the month plus one and the unchanged time within the day;
  a day of the month past the end of the month runs over into the next month. With a
  fixed offset that is the same local time on the next day.
\<close>

definition setDateNext :: "int \<Rightarrow> int" where
  "setDateNext t = t + msPerDay"

subsection \<open>The calendar\<close>

definition isLeap :: "int \<Rightarrow> bool" where
  "isLeap y = (y mod 4 = 0 \<and> (y mod 100 \<noteq> 0 \<or> y mod 400 = 0))"

definition DaysInYear :: "int \<Rightarrow> int" where
  "DaysInYear y = (if isLeap y then 366 else 365)"

text \<open>ECMAScript \<^verbatim>\<open>DayFromYear(y)\<close>: the day number of January 1st of year \<open>y\<close>.\<close>

definition DayFromYear :: "int \<Rightarrow> int" where
  "DayFromYear y =
     365 * (y - 1970) + (y - 1969) div 4 - (y - 1901) div 100 + (y - 1601) div 400"

text \<open>Months are numbered 1 to 12, as in the date strings.\<close>

definition daysInMonth :: "int \<Rightarrow> int \<Rightarrow> int" where
  "daysInMonth y m =
     (if m = 2 then (if isLeap y then 29 else 28)
      else if m = 4 \<or> m = 6 \<or> m = 9 \<or> m = 11 then 30
      else 31)"

definition daysBeforeMonth :: "int \<Rightarrow> int \<Rightarrow> int" where
  "daysBeforeMonth y m = sum_list (map (daysInMonth y) [1..m - 1])"

text \<open>ECMAScript \<^verbatim>\<open>MakeDay\<close>: the day number of a calendar date.\<close>

definition MakeDay :: "int \<Rightarrow> int \<Rightarrow> int \<Rightarrow> int" where
  "MakeDay y m d = DayFromYear y + daysBeforeMonth y m + d - 1"

text \<open>
  ECMAScript \<^verbatim>\<open>YearFromTime\<close>: the largest year \<open>y\<close> whose January 1st is not after the
  day. The search goes up from a year that is not after the year of the day (no year has
  fewer than 365 or more than 366 days).
\<close>

function YearFromDay_search :: "int \<Rightarrow> int \<Rightarrow> int" where
  "YearFromDay_search y n =
     (if DayFromYear (y + 1) \<le> n then YearFromDay_search (y + 1) n else y)"
  by pat_completeness auto
termination
proof (relation "measure (\<lambda>(y, n). nat (n - DayFromYear y))")
  show "wf (measure (\<lambda>(y, n). nat (n - DayFromYear y)))"
    by simp
next
  fix y n :: int
  assume le: "DayFromYear (y + 1) \<le> n"
  have 4: "(y - 1969) div 4 \<le> (y - 1968) div 4"
    by (rule zdiv_mono1) simp_all
  have "(y - 1900) div 100 \<le> (y - 1901 + 100) div 100"
    by (rule zdiv_mono1) simp_all
  then have 100: "(y - 1900) div 100 \<le> (y - 1901) div 100 + 1"
    by simp
  have 400: "(y - 1601) div 400 \<le> (y - 1600) div 400"
    by (rule zdiv_mono1) simp_all
  have "DayFromYear (y + 1) =
      365 * (y - 1969) + (y - 1968) div 4 - (y - 1900) div 100 + (y - 1600) div 400"
    by (simp add: DayFromYear_def)
  with 4 100 400 have "DayFromYear y < DayFromYear (y + 1)"
    by (simp add: DayFromYear_def)
  with le show "((y + 1, n), (y, n)) \<in> measure (\<lambda>(y, n). nat (n - DayFromYear y))"
    by simp
qed

declare YearFromDay_search.simps [simp del]

definition YearFromDay :: "int \<Rightarrow> int" where
  "YearFromDay n = YearFromDay_search (1970 + (if 0 \<le> n then n div 366 else n div 365)) n"

text \<open>ECMAScript \<^verbatim>\<open>DayWithinYear\<close> and \<^verbatim>\<open>InLeapYear\<close>.\<close>

definition DayWithinYear :: "int \<Rightarrow> int" where
  "DayWithinYear n = n - DayFromYear (YearFromDay n)"

definition InLeapYear :: "int \<Rightarrow> int" where
  "InLeapYear n = (if isLeap (YearFromDay n) then 1 else 0)"

text \<open>ECMAScript \<^verbatim>\<open>MonthFromTime\<close>: 0 is January.\<close>

definition MonthFromDay :: "int \<Rightarrow> int" where
  "MonthFromDay n =
     (if DayWithinYear n < 31 then 0
      else if DayWithinYear n < 59 + InLeapYear n then 1
      else if DayWithinYear n < 90 + InLeapYear n then 2
      else if DayWithinYear n < 120 + InLeapYear n then 3
      else if DayWithinYear n < 151 + InLeapYear n then 4
      else if DayWithinYear n < 181 + InLeapYear n then 5
      else if DayWithinYear n < 212 + InLeapYear n then 6
      else if DayWithinYear n < 243 + InLeapYear n then 7
      else if DayWithinYear n < 273 + InLeapYear n then 8
      else if DayWithinYear n < 304 + InLeapYear n then 9
      else if DayWithinYear n < 334 + InLeapYear n then 10
      else 11)"

text \<open>ECMAScript \<^verbatim>\<open>DateFromTime\<close>: the day of the month, from 1.\<close>

definition DateFromDay :: "int \<Rightarrow> int" where
  "DateFromDay n =
     (if MonthFromDay n = 0 then DayWithinYear n + 1
      else if MonthFromDay n = 1 then DayWithinYear n - 30
      else if MonthFromDay n = 2 then DayWithinYear n - 58 - InLeapYear n
      else if MonthFromDay n = 3 then DayWithinYear n - 89 - InLeapYear n
      else if MonthFromDay n = 4 then DayWithinYear n - 119 - InLeapYear n
      else if MonthFromDay n = 5 then DayWithinYear n - 150 - InLeapYear n
      else if MonthFromDay n = 6 then DayWithinYear n - 180 - InLeapYear n
      else if MonthFromDay n = 7 then DayWithinYear n - 211 - InLeapYear n
      else if MonthFromDay n = 8 then DayWithinYear n - 242 - InLeapYear n
      else if MonthFromDay n = 9 then DayWithinYear n - 272 - InLeapYear n
      else if MonthFromDay n = 10 then DayWithinYear n - 303 - InLeapYear n
      else DayWithinYear n - 333 - InLeapYear n)"

subsection \<open>Numbers as strings\<close>

definition digitChar :: "nat \<Rightarrow> char" where
  "digitChar n = ''0123456789'' ! (n mod 10)"

function digits :: "nat \<Rightarrow> string" where
  "digits n = (if n < 10 then [digitChar n] else digits (n div 10) @ [digitChar n])"
  by pat_completeness auto
termination
  by (relation "measure id") auto

declare digits.simps [simp del]

text \<open>\<^verbatim>\<open>String(n)\<close> of an integer-valued number.\<close>

definition String :: "int \<Rightarrow> string" where
  "String n = (if n < 0 then CHR ''-'' # digits (nat (- n)) else digits (nat n))"

text \<open>\<^verbatim>\<open>padStart(w, '0')\<close> of the decimal digits.\<close>

definition pad :: "nat \<Rightarrow> int \<Rightarrow> string" where
  "pad w n = replicate (w - length (digits (nat n))) CHR ''0'' @ digits (nat n)"

subsection \<open>\<^verbatim>\<open>toISOString\<close>\<close>

text \<open>
  \<^verbatim>\<open>toISOString\<close> prints the UTC date and time of a time value. Years 0 to 9999 have four
  digits, other years a sign and six digits.
\<close>

definition isoYear :: "int \<Rightarrow> string" where
  "isoYear y =
     (if 0 \<le> y \<and> y \<le> 9999 then pad 4 y
      else (if y < 0 then CHR ''-'' else CHR ''+'') # pad 6 \<bar>y\<bar>)"

definition isoDate :: "int \<Rightarrow> string" where
  "isoDate n =
     isoYear (YearFromDay n) @ ''-'' @ pad 2 (MonthFromDay n + 1) @ ''-'' @ pad 2 (DateFromDay n)"

definition isoTime :: "int \<Rightarrow> string" where
  "isoTime ms =
     pad 2 (ms div 3600000) @ '':'' @ pad 2 (ms div 60000 mod 60) @ '':'' @
     pad 2 (ms div 1000 mod 60) @ ''.'' @ pad 3 (ms mod 1000)"

definition toISOString :: "int \<Rightarrow> string" where
  "toISOString t = isoDate (Day t) @ ''T'' @ isoTime (t mod msPerDay) @ ''Z''"

subsection \<open>Parsing a date\<close>

text \<open>
  \<^verbatim>\<open>new Date(str + 'T00:00:00')\<close>. ECMAScript reads the string in its date-time format
  first; a date-time without an offset is local time. The model follows the way V8 reads
  the date part of that format:
  \<^item> the year is a number of exactly four digits, or a sign and a number of exactly six
    digits (\<^verbatim>\<open>-000000\<close> is not a year);
  \<^item> then, optionally, \<^verbatim>\<open>-\<close> and a month of exactly two digits, from 01 to 12; then,
    optionally, \<^verbatim>\<open>-\<close> and a day of exactly two digits, from 01 to 31, whatever the
    month; a missing month or day is 1;
  \<^item> the \<^verbatim>\<open>T\<close> of the appended time must follow at once;
  \<^item> the day number is that of \<^verbatim>\<open>MakeDay\<close>, so that a day past the end of its month
    runs over into the next month (\<^verbatim>\<open>2024-02-30\<close> is the 1st of March). Other engines
    refuse such a day.

  What becomes of a string that is not in the format is left to the engine by ECMAScript
  (heuristics and date formats of the implementation). The model takes this part of
  the engine as a parameter \<open>fb\<close>: the time value that the engine gives for the whole
  string, \<open>None\<close> for the invalid Date. Every statement below holds for each \<open>fb\<close>.
\<close>

type_synonym fallback = "string \<Rightarrow> int option"

definition isDigit :: "char \<Rightarrow> bool" where
  "isDigit c = (48 \<le> (of_char c :: nat) \<and> (of_char c :: nat) \<le> 57)"

definition digitsValue :: "string \<Rightarrow> int" where
  "digitsValue s = foldl (\<lambda>acc c. 10 * acc + (int (of_char c) - 48)) 0 s"

text \<open>
  The number at the front of the string, where it has exactly \<open>k\<close> digits, and the rest
  of the string.
\<close>

definition fixedNumber :: "nat \<Rightarrow> string \<Rightarrow> (int \<times> string) option" where
  "fixedNumber k s =
     (if length (takeWhile isDigit s) = k
      then Some (digitsValue (takeWhile isDigit s), dropWhile isDigit s)
      else None)"

definition scanYear :: "string \<Rightarrow> (int \<times> string) option" where
  "scanYear s =
     (if s \<noteq> [] \<and> (hd s = CHR ''+'' \<or> hd s = CHR ''-'')
      then
        (case fixedNumber 6 (tl s) of
           None \<Rightarrow> None
         | Some (y, r) \<Rightarrow>
             if hd s = CHR ''-'' \<and> y = 0 then None
             else Some (if hd s = CHR ''-'' then - y else y, r))
      else fixedNumber 4 s)"

text \<open>An optional \<^verbatim>\<open>-NN\<close> with \<open>1 \<le> NN \<le> hi\<close>; 1 where there is no \<^verbatim>\<open>-\<close>.\<close>

definition scanField :: "int \<Rightarrow> string \<Rightarrow> (int \<times> string) option" where
  "scanField hi s =
     (if s \<noteq> [] \<and> hd s = CHR ''-''
      then
        (case fixedNumber 2 (tl s) of
           None \<Rightarrow> None
         | Some (v, r) \<Rightarrow> if 1 \<le> v \<and> v \<le> hi then Some (v, r) else None)
      else Some (1, s))"

text \<open>
  The day number of the date that \<open>str\<close> gives, where \<open>str\<close> is the date part of the
  format.
\<close>

definition parseISO :: "string \<Rightarrow> int option" where
  "parseISO str =
     (case scanYear str of
        None \<Rightarrow> None
      | Some (y, r) \<Rightarrow>
          (case scanField 12 r of
             None \<Rightarrow> None
           | Some (m, r') \<Rightarrow>
               (case scanField 31 r' of
                  None \<Rightarrow> None
                | Some (d, r'') \<Rightarrow> if r'' = [] then Some (MakeDay y m d) else None)))"

text \<open>The time value of local midnight of a day number.\<close>

definition localMidnight :: "int \<Rightarrow> int \<Rightarrow> int" where
  "localMidnight tz n = n * msPerDay - tz * msPerMinute"

text \<open>
  The time value of a Date lies within 100,000,000 days of the epoch, or the Date is
  invalid. The model tests the day number of the local date; for the time value itself
  the outcome differs only on the last day at either end, by the sign of the offset.
\<close>

definition maxDay :: int where
  "maxDay = 100000000"

definition newDate :: "fallback \<Rightarrow> int \<Rightarrow> string \<Rightarrow> int option" where
  "newDate fb tz str =
     (case parseISO str of
        Some n \<Rightarrow> if - maxDay \<le> n \<and> n \<le> maxDay then Some (localMidnight tz n) else None
      | None \<Rightarrow> fb (str @ ''T00:00:00''))"

section \<open>\<^verbatim>\<open>dateRangeDays\<close>\<close>

text \<open>The field \<^verbatim>\<open>total\<close> of the source is \<open>totalDays\<close> here.\<close>

record dateRange =
  totalDays :: int
  sundays :: int
  workingDays :: int

text \<open>The \<^verbatim>\<open>for\<close> loop of \<^verbatim>\<open>dateRangeDays\<close>, with its two counters.\<close>

function dateRangeDays_loop :: "int \<Rightarrow> int \<Rightarrow> int \<Rightarrow> int \<Rightarrow> int \<Rightarrow> int \<times> int" where
  "dateRangeDays_loop tz cur e tot sun =
     (if cur \<le> e
      then dateRangeDays_loop tz (setDateNext cur) e (tot + 1)
             (if getDay tz cur = 0 then sun + 1 else sun)
      else (tot, sun))"
  by pat_completeness auto
termination
  by (relation "measure (\<lambda>(tz, cur, e, tot, sun). nat (e - cur + 1))")
     (auto simp: setDateNext_def msPerDay_def)

declare dateRangeDays_loop.simps [simp del]

text \<open>\<open>None\<close> is the \<^verbatim>\<open>null\<close> that the source returns for an invalid range.\<close>

definition dateRangeDays :: "fallback \<Rightarrow> int \<Rightarrow> string \<Rightarrow> string \<Rightarrow> dateRange option" where
  "dateRangeDays fb tz start end =
     (case (newDate fb tz start, newDate fb tz end) of
        (Some s, Some e) \<Rightarrow>
          if s > e then None
          else (case dateRangeDays_loop tz s e 0 0 of
                  (tot, sun) \<Rightarrow>
                    Some \<lparr>totalDays = tot, sundays = sun, workingDays = tot - sun\<rparr>)
      | _ \<Rightarrow> None)"

section \<open>The roster\<close>

text \<open>
  A record of the source is \<^verbatim>\<open>{ status: 'Present' | 'Absent', time: 'HH:MM' }\<close>; the
  source writes no other status. \<^verbatim>\<open>time\<close> is a string, and may be empty (a cleared time
  input). A worker's \<^verbatim>\<open>records\<close> object maps a date string to a record.
\<close>

datatype status = Present | Absent

record attendance =
  status :: status
  time :: string

record labour =
  name :: string
  records :: "string \<rightharpoonup> attendance"

section \<open>\<^verbatim>\<open>computeStats\<close>\<close>

text \<open>
  One entry of \<^verbatim>\<open>stats\<close>: \<^verbatim>\<open>{ name, present, absent, late, workingDays, sundays }\<close>; the
  fields carry the prefix \<open>st_\<close> here.
\<close>

record labourStats =
  st_name :: string
  st_present :: int
  st_absent :: int
  st_late :: int
  st_workingDays :: int
  st_sundays :: int

record statsResult =
  dr :: dateRange
  stats :: "labourStats list"

text \<open>
  The body of the inner \<^verbatim>\<open>for\<close> loop, on the counters \<open>(present, absent, late)\<close>. The key
  \<open>k\<close> is cut from \<^verbatim>\<open>toISOString\<close>, the UTC date of \<open>cur\<close>; the week day is the local one.
  \<^verbatim>\<open>rec.time && ...\<close> is false for the empty string.
\<close>

definition computeStats_body ::
  "int \<Rightarrow> (string \<rightharpoonup> attendance) \<Rightarrow> int \<Rightarrow> int \<times> int \<times> int \<Rightarrow> int \<times> int \<times> int" where
  "computeStats_body tz recs cur acc =
     (case acc of (present, absent, late) \<Rightarrow>
        (let k = take 10 (toISOString cur);
             rec = recs k
         in if rec \<noteq> None \<and> status (the rec) = Present
            then (present + 1, absent,
                  if time (the rec) \<noteq> [] \<and> time (the rec) \<noteq> ''09:00'' then late + 1 else late)
            else (present, if getDay tz cur \<noteq> 0 then absent + 1 else absent, late)))"

function computeStats_loop ::
  "int \<Rightarrow> (string \<rightharpoonup> attendance) \<Rightarrow> int \<Rightarrow> int \<Rightarrow> int \<times> int \<times> int \<Rightarrow> int \<times> int \<times> int" where
  "computeStats_loop tz recs cur e acc =
     (if cur \<le> e
      then computeStats_loop tz recs (setDateNext cur) e (computeStats_body tz recs cur acc)
      else acc)"
  by pat_completeness auto
termination
  by (relation "measure (\<lambda>(tz, recs, cur, e, acc). nat (e - cur + 1))")
     (auto simp: setDateNext_def msPerDay_def)

declare computeStats_loop.simps [simp del]

text \<open>
  \<^verbatim>\<open>computeStats\<close> over the roster \<open>labours\<close>. The loop starts again from
  \<^verbatim>\<open>new Date(start + 'T00:00:00')\<close> for each worker; both Dates are valid when
  \<^verbatim>\<open>dateRangeDays\<close> has returned a range.
\<close>

definition computeStats ::
  "fallback \<Rightarrow> int \<Rightarrow> labour list \<Rightarrow> string \<Rightarrow> string \<Rightarrow> statsResult option" where
  "computeStats fb tz labours start end =
     (case dateRangeDays fb tz start end of
        None \<Rightarrow> None
      | Some r \<Rightarrow>
          Some \<lparr>dr = r,
                stats = map (\<lambda>lab.
                  (case computeStats_loop tz (records lab) (the (newDate fb tz start))
                          (the (newDate fb tz end)) (0, 0, 0) of
                     (present, absent, late) \<Rightarrow>
                       \<lparr>st_name = name lab, st_present = present, st_absent = absent,
                        st_late = late, st_workingDays = workingDays r,
                        st_sundays = sundays r\<rparr>)) labours\<rparr>)"

section \<open>The operations on the roster\<close>

text \<open>
  The handlers read the state \<^verbatim>\<open>labours\<close> (and \<^verbatim>\<open>date\<close>, \<^verbatim>\<open>newName\<close>) and call
  \<^verbatim>\<open>setLabours\<close> with the new roster. Here each is a function from the roster to the new
  roster (\<open>Inr\<close>); \<open>Inl\<close> says why \<^verbatim>\<open>setLabours\<close> was not called, and the roster stays
  as it was (\<open>rosterAfter\<close>).
  \<^item> \<open>EmptyName\<close>: \<^verbatim>\<open>addLabour\<close> returns at \<^verbatim>\<open>if (!name) return\<close>;
  \<^item> \<open>DuplicateName\<close>: \<^verbatim>\<open>addLabour\<close> alerts \<^verbatim>\<open>'Labour already exists'\<close> and returns;
  \<^item> \<open>IndexError\<close>: the index is out of bounds: \<^verbatim>\<open>labours[index]\<close> is \<^verbatim>\<open>undefined\<close>, and
    reading a property of it throws (a \<^verbatim>\<open>TypeError\<close> of JavaScript);
  \<^item> \<open>NotConfirmed\<close>: the user declines the \<^verbatim>\<open>confirm\<close> dialog of \<^verbatim>\<open>removeLabour\<close>.
\<close>

datatype error = EmptyName | DuplicateName | IndexError | NotConfirmed

definition rosterAfter :: "labour list \<Rightarrow> error + labour list \<Rightarrow> labour list" where
  "rosterAfter labours r = (case r of Inl e \<Rightarrow> labours | Inr updated \<Rightarrow> updated)"

text \<open>An index is a number; \<^verbatim>\<open>labours[index]\<close> is defined for \<open>0 \<le> index < length\<close>.\<close>

definition inBounds :: "labour list \<Rightarrow> int \<Rightarrow> bool" where
  "inBounds labours index = (0 \<le> index \<and> index < int (length labours))"

subsection \<open>\<^verbatim>\<open>trim\<close>\<close>

text \<open>
  \<^verbatim>\<open>String.prototype.trim\<close> removes white space and line terminators from both ends.
  The list holds their UTF-8 encodings: U+0009 to U+000D, U+0020, U+00A0, U+1680,
  U+2000 to U+200A, U+2028, U+2029, U+202F, U+205F, U+3000 and U+FEFF.
\<close>

definition whiteSpace :: "string list" where
  "whiteSpace =
     [[CHR 0x09], [CHR 0x0A], [CHR 0x0B], [CHR 0x0C], [CHR 0x0D], [CHR 0x20],
      [CHR 0xC2, CHR 0xA0], [CHR 0xE1, CHR 0x9A, CHR 0x80],
      [CHR 0xE2, CHR 0x80, CHR 0x80], [CHR 0xE2, CHR 0x80, CHR 0x81],
      [CHR 0xE2, CHR 0x80, CHR 0x82], [CHR 0xE2, CHR 0x80, CHR 0x83],
      [CHR 0xE2, CHR 0x80, CHR 0x84], [CHR 0xE2, CHR 0x80, CHR 0x85],
      [CHR 0xE2, CHR 0x80, CHR 0x86], [CHR 0xE2, CHR 0x80, CHR 0x87],
      [CHR 0xE2, CHR 0x80, CHR 0x88], [CHR 0xE2, CHR 0x80, CHR 0x89],
      [CHR 0xE2, CHR 0x80, CHR 0x8A], [CHR 0xE2, CHR 0x80, CHR 0xA8],
      [CHR 0xE2, CHR 0x80, CHR 0xA9], [CHR 0xE2, CHR 0x80, CHR 0xAF],
      [CHR 0xE2, CHR 0x81, CHR 0x9F], [CHR 0xE3, CHR 0x80, CHR 0x80],
      [CHR 0xEF, CHR 0xBB, CHR 0xBF]]"

text \<open>Removing from the front every leading occurrence of one of the strings \<open>ws\<close>.\<close>

function stripStart :: "string list \<Rightarrow> string \<Rightarrow> string" where
  "stripStart ws s =
     (case find (\<lambda>w. w \<noteq> [] \<and> take (length w) s = w) ws of
        None \<Rightarrow> s
      | Some w \<Rightarrow> stripStart ws (drop (length w) s))"
  by pat_completeness auto
termination
proof (relation "measure (\<lambda>(ws, s). length s)")
  show "wf (measure (\<lambda>(ws, s). length s))"
    by simp
next
  fix ws :: "string list" and s w :: string
  assume "find (\<lambda>w. w \<noteq> [] \<and> take (length w) s = w) ws = Some w"
  then have w: "w \<noteq> []" "take (length w) s = w"
    by (auto simp: find_Some_iff)
  then have "s \<noteq> []"
    by auto
  with w show "((ws, drop (length w) s), (ws, s)) \<in> measure (\<lambda>(ws, s). length s)"
    by (cases w) auto
qed

declare stripStart.simps [simp del]

definition trim :: "string \<Rightarrow> string" where
  "trim s = rev (stripStart (map rev whiteSpace) (rev (stripStart whiteSpace s)))"

subsection \<open>\<^verbatim>\<open>addLabour\<close>, \<^verbatim>\<open>togglePresent\<close>, \<^verbatim>\<open>changeTime\<close>, \<^verbatim>\<open>removeLabour\<close>\<close>

definition addLabour :: "labour list \<Rightarrow> string \<Rightarrow> error + labour list" where
  "addLabour labours newName =
     (let name' = trim newName
      in if name' = [] then Inl EmptyName
         else if list_ex (\<lambda>l. name l = name') labours then Inl DuplicateName
         else Inr (labours @ [\<lparr>name = name', records = Map.empty\<rparr>]))"

text \<open>The record that \<^verbatim>\<open>togglePresent\<close> and \<^verbatim>\<open>changeTime\<close> start from where none exists.\<close>

definition defaultRecord :: attendance where
  "defaultRecord = \<lparr>status = Absent, time = ''09:00''\<rparr>"

definition togglePresent :: "labour list \<Rightarrow> string \<Rightarrow> int \<Rightarrow> error + labour list" where
  "togglePresent labours date index =
     (if \<not> inBounds labours index then Inl IndexError
      else
        (let l = labours ! nat index;
             rec = (case records l date of None \<Rightarrow> defaultRecord | Some r \<Rightarrow> r);
             newStatus = (if status rec = Present then Absent else Present)
         in Inr (labours[nat index :=
                   l\<lparr>records := (records l)(date \<mapsto> rec\<lparr>status := newStatus\<rparr>)\<rparr>])))"

text \<open>
  \<^verbatim>\<open>changeTime\<close> copies the roster and each \<^verbatim>\<open>records\<close> object, and writes \<^verbatim>\<open>time\<close> into the
  record object of that worker and date. A record object belongs to one worker and one
  date (the stored JSON is a tree, and every other write makes a new object), so the
  write shows in no other place of the new roster.
\<close>

definition changeTime :: "labour list \<Rightarrow> string \<Rightarrow> int \<Rightarrow> string \<Rightarrow> error + labour list" where
  "changeTime labours date index newTime =
     (if \<not> inBounds labours index then Inl IndexError
      else
        (let l = labours ! nat index;
             rec = (case records l date of None \<Rightarrow> defaultRecord | Some r \<Rightarrow> r)
         in Inr (labours[nat index :=
                   l\<lparr>records := (records l)(date \<mapsto> rec\<lparr>time := newTime\<rparr>)\<rparr>])))"

text \<open>
  \<^verbatim>\<open>removeLabour\<close>: \<open>confirmed\<close> is the answer of the \<^verbatim>\<open>confirm\<close> dialog. Its message
  reads \<^verbatim>\<open>labours[index].name\<close> first, which throws for an index out of bounds.
  \<^verbatim>\<open>filter((_, i) => i !== index)\<close> keeps the entries at the other positions.
\<close>

definition removeLabour :: "bool \<Rightarrow> labour list \<Rightarrow> int \<Rightarrow> error + labour list" where
  "removeLabour confirmed labours index =
     (if \<not> inBounds labours index then Inl IndexError
      else if \<not> confirmed then Inl NotConfirmed
      else Inr (map snd (filter (\<lambda>(i, l). int i \<noteq> index) (enumerate 0 labours))))"

section \<open>\<^verbatim>\<open>generatePDF\<close>\<close>

text \<open>
  The calls made on the \<^verbatim>\<open>jsPDF\<close> document, in order: \<^verbatim>\<open>doc.setFontSize(n)\<close>,
  \<^verbatim>\<open>doc.text(str, x, y)\<close>, \<^verbatim>\<open>doc.addPage()\<close> and \<^verbatim>\<open>doc.save(name)\<close>.
\<close>

datatype instr = SetFontSize int | Text string int int | AddPage | Save string

definition colX :: "int list" where
  "colX = [14, 70, 110, 140, 170, 200]"

definition startY :: int where
  "startY = 40"

text \<open>The six \<^verbatim>\<open>doc.text\<close> calls for one entry of \<^verbatim>\<open>stats\<close> at the height \<open>y\<close>.\<close>

definition rowTexts :: "labourStats \<Rightarrow> int \<Rightarrow> instr list" where
  "rowTexts s y =
     [Text (st_name s) (colX ! 0) y,
      Text (String (st_present s)) (colX ! 1) y,
      Text (String (st_absent s)) (colX ! 2) y,
      Text (String (st_late s)) (colX ! 3) y,
      Text (String (st_workingDays s)) (colX ! 4) y,
      Text (String (st_sundays s)) (colX ! 5) y]"

text \<open>The body of \<^verbatim>\<open>stats.forEach\<close>, on the calls made so far and the variable \<^verbatim>\<open>y\<close>.\<close>

definition forEach_body :: "labourStats \<Rightarrow> instr list \<times> int \<Rightarrow> instr list \<times> int" where
  "forEach_body s acc =
     (case acc of (doc, y) \<Rightarrow>
        (let doc' = doc @ rowTexts s y;
             y' = y + 8
         in if y' > 280 then (doc' @ [AddPage], 20) else (doc', y')))"

text \<open>The title, the period, the day counts and the header row.\<close>

definition titleLines :: "string \<Rightarrow> string \<Rightarrow> dateRange \<Rightarrow> instr list" where
  "titleLines start end r =
     [SetFontSize 16,
      Text ''Labour Attendance Report'' 14 18,
      SetFontSize 10,
      Text (''Period: '' @ start @ '' '' @ [CHR 0xE2, CHR 0x80, CHR 0x94] @ '' '' @ end) 14 26,
      Text (''Working days: '' @ String (workingDays r) @ '' | Sundays: '' @ String (sundays r))
        14 32]"

definition headerRow :: "instr list" where
  "headerRow =
     [SetFontSize 10,
      Text ''Name'' (colX ! 0) startY,
      Text ''Present'' (colX ! 1) startY,
      Text ''Absent'' (colX ! 2) startY,
      Text ''Late Days'' (colX ! 3) startY,
      Text ''Working'' (colX ! 4) startY,
      Text ''Sundays'' (colX ! 5) startY]"

text \<open>The part of \<^verbatim>\<open>generatePDF\<close> after \<^verbatim>\<open>computeStats\<close> has returned a result.\<close>

definition renderReport :: "string \<Rightarrow> string \<Rightarrow> statsResult \<Rightarrow> instr list" where
  "renderReport start end res =
     fst (fold forEach_body (stats res) (titleLines start end (dr res) @ headerRow, startY + 8))
     @ [Save (''attendance_'' @ start @ ''_to_'' @ end @ ''.pdf'')]"

text \<open>\<open>None\<close>: the alert \<^verbatim>\<open>'Invalid range'\<close>, and no document.\<close>

definition generatePDF ::
  "fallback \<Rightarrow> int \<Rightarrow> labour list \<Rightarrow> string \<Rightarrow> string \<Rightarrow> instr list option" where
  "generatePDF fb tz labours start end =
     (case computeStats fb tz labours start end of
        None \<Rightarrow> None
      | Some res \<Rightarrow> Some (renderReport start end res))"

section \<open>The calendar and the counts, in the words of the specification\<close>

text \<open>
  The definitions of this section are not taken from the source: they say what the
  specification speaks of, for the statements below.

  A calendar date is a year, a month and a day of that month; \<open>nextDate\<close> is the day
  after it.
\<close>

definition validDate :: "int \<times> int \<times> int \<Rightarrow> bool" where
  "validDate ymd = (case ymd of (y, m, d) \<Rightarrow> 1 \<le> m \<and> m \<le> 12 \<and> 1 \<le> d \<and> d \<le> daysInMonth y m)"

text \<open>
  A valid calendar date, as a string: \<^verbatim>\<open>YYYY-MM-DD\<close>, the date format of the application,
  with a month from 01 to 12 and a day that the month has in that year. \<open>parseYMD\<close>
  gives its day number, and \<open>None\<close> for every other string.
\<close>

definition parseYMD :: "string \<Rightarrow> int option" where
  "parseYMD s =
     (if length s = 10 \<and> s ! 4 = CHR ''-'' \<and> s ! 7 = CHR ''-''
         \<and> list_all isDigit (take 4 s) \<and> list_all isDigit (take 2 (drop 5 s))
         \<and> list_all isDigit (drop 8 s)
      then
        (let y = digitsValue (take 4 s);
             m = digitsValue (take 2 (drop 5 s));
             d = digitsValue (drop 8 s)
         in if 1 \<le> m \<and> m \<le> 12 \<and> 1 \<le> d \<and> d \<le> daysInMonth y m
            then Some (MakeDay y m d) else None)
      else None)"


definition twoDigits :: "string \<Rightarrow> bool" where
  "twoDigits ds = (length ds = 2 \<and> list_all isDigit ds)"



definition dayNumber :: "int \<times> int \<times> int \<Rightarrow> int" where
  "dayNumber ymd = (case ymd of (y, m, d) \<Rightarrow> MakeDay y m d)"

text \<open>The calendar date of a day number: the year, the month from 1 and the day.\<close>

definition civilDate :: "int \<Rightarrow> int \<times> int \<times> int" where
  "civilDate n = (YearFromDay n, MonthFromDay n + 1, DateFromDay n)"

text \<open>
  The key of a day in a \<^verbatim>\<open>records\<close> object: the first ten characters of its ISO date,
  \<^verbatim>\<open>YYYY-MM-DD\<close> for the years 0 to 9999.
\<close>

definition dateKey :: "int \<Rightarrow> string" where
  "dateKey n = take 10 (isoDate n)"

text \<open>
  A worker on a day: present (a record for that day with status Present), late as the
  source counts it (present, with a time that is not empty and not \<^verbatim>\<open>09:00\<close>), late as
  the specification words it (present, with a time other than \<^verbatim>\<open>09:00\<close>), and counted
  absent (not present, on a day that is not a Sunday).
\<close>

definition presentOn :: "labour \<Rightarrow> int \<Rightarrow> bool" where
  "presentOn lab n =
     (case records lab (dateKey n) of None \<Rightarrow> False | Some r \<Rightarrow> status r = Present)"

definition lateOn :: "labour \<Rightarrow> int \<Rightarrow> bool" where
  "lateOn lab n =
     (case records lab (dateKey n) of
        None \<Rightarrow> False
      | Some r \<Rightarrow> status r = Present \<and> time r \<noteq> [] \<and> time r \<noteq> ''09:00'')"

definition lateOn_spec :: "labour \<Rightarrow> int \<Rightarrow> bool" where
  "lateOn_spec lab n =
     (case records lab (dateKey n) of
        None \<Rightarrow> False
      | Some r \<Rightarrow> status r = Present \<and> time r \<noteq> ''09:00'')"

definition absentOn :: "labour \<Rightarrow> int \<Rightarrow> bool" where
  "absentOn lab n = (\<not> presentOn lab n \<and> WeekDay n \<noteq> 0)"

text \<open>The number of the days from \<open>a\<close> to \<open>b\<close>, both counted, on which \<open>P\<close> holds.\<close>

definition countDays :: "(int \<Rightarrow> bool) \<Rightarrow> int \<Rightarrow> int \<Rightarrow> int" where
  "countDays P a b = int (length (filter P [a..b]))"

text \<open>
  The status and the arrival time of a worker on a date, as the specification reads
  them: a missing record is Absent, with the time \<^verbatim>\<open>09:00\<close>.
\<close>

definition statusOn :: "labour \<Rightarrow> string \<Rightarrow> status" where
  "statusOn lab date = (case records lab date of None \<Rightarrow> Absent | Some r \<Rightarrow> status r)"

definition timeOn :: "labour \<Rightarrow> string \<Rightarrow> string" where
  "timeOn lab date = (case records lab date of None \<Rightarrow> ''09:00'' | Some r \<Rightarrow> time r)"

text \<open>
  The height of the row after a row at height \<open>y\<close>, and the height of the row with the
  number \<open>k\<close> (from 0) in closed form: 30 rows on the first page, from 48 to 280, and
  33 rows on each later page, from 20 to 276.
\<close>

definition nextY :: "int \<Rightarrow> int" where
  "nextY y = (if 280 < y + 8 then 20 else y + 8)"

definition rowY :: "nat \<Rightarrow> int" where
  "rowY k = (if k < 30 then 48 + 8 * int k else 20 + 8 * int ((k - 30) mod 33))"

text \<open>
  The rows of the table as they lie on the pages: the row of each entry at its height,
  followed by a page break where the next height would pass 280.
\<close>

definition pageRows :: "labourStats list \<Rightarrow> instr list" where
  "pageRows ss =
     concat (map (\<lambda>k. rowTexts (ss ! k) (rowY k) @ (if 280 < rowY k + 8 then [AddPage] else []))
               [0..<length ss])"

text \<open>
  Local midnight of day \<open>n\<close> lies on the UTC day \<open>n + utcShift tz\<close>: the same day
  for an offset from -23:59 to 00:00, the day before for an offset ahead of UTC.
\<close>

definition utcShift :: "int \<Rightarrow> int" where
  "utcShift tz = (- tz) div 1440"

text \<open>
  An engine that makes no date of a string outside the date-time format: \<open>noFallback\<close>.

  The worker of the scenarios of the specification: Asha, present on 2024-01-03 at 09:00
  and on 2024-01-04 at 10:30. And a worker marked present on 2024-01-03 whose time input
  was cleared.
\<close>

definition noFallback :: fallback where
  "noFallback s = None"

definition asha :: labour where
  "asha = \<lparr>name = ''Asha'',
            records = [''2024-01-03'' \<mapsto> \<lparr>status = Present, time = ''09:00''\<rparr>,
                       ''2024-01-04'' \<mapsto> \<lparr>status = Present, time = ''10:30''\<rparr>]\<rparr>"

definition cleared :: labour where
  "cleared = \<lparr>name = ''Ravi'',
               records = [''2024-01-03'' \<mapsto> \<lparr>status = Present, time = []\<rparr>]\<rparr>"

section \<open>Properties of the runtime model\<close>

lemma setDateNext_localMidnight: "setDateNext (localMidnight tz n) = localMidnight tz (n + 1)"
  by (simp add: setDateNext_def localMidnight_def algebra_simps)

lemma localMidnight_le: "localMidnight tz a \<le> localMidnight tz b \<longleftrightarrow> a \<le> b"
  by (simp add: localMidnight_def msPerDay_def)

lemma LocalTime_localMidnight: "LocalTime tz (localMidnight tz n) = n * msPerDay"
  by (simp add: LocalTime_def localMidnight_def)

lemma getDay_localMidnight: "getDay tz (localMidnight tz n) = WeekDay n"
  by (simp add: getDay_def LocalTime_localMidnight Day_def msPerDay_def)

lemma Day_localMidnight: "Day (localMidnight tz n) = n + (- tz) div 1440"
proof -
  have "((- tz) * 60000 + n * 86400000) div 86400000 = n + ((- tz) * 60000) div 86400000"
    by (rule div_mult_self1) simp
  moreover have "((- tz) * 60000) div (1440 * 60000) = (- tz) div 1440"
    by (rule div_mult_mult2) simp
  ultimately show ?thesis
    by (simp add: Day_def localMidnight_def msPerDay_def msPerMinute_def)
qed

lemma localMidnight_less: "localMidnight tz a < localMidnight tz b \<longleftrightarrow> a < b"
  by (simp add: localMidnight_def msPerDay_def)

text \<open>The first ten characters of \<^verbatim>\<open>toISOString\<close> are the key of the UTC day.\<close>

lemma length_pad: "w \<le> length (pad w n)"
  by (simp add: pad_def)

lemma length_isoYear: "4 \<le> length (isoYear y)"
  using length_pad [of 4 y] length_pad [of 6 "\<bar>y\<bar>"] by (simp add: isoYear_def)

lemma length_isoDate: "10 \<le> length (isoDate n)"
  using length_isoYear [of "YearFromDay n"] length_pad [of 2 "MonthFromDay n + 1"]
    length_pad [of 2 "DateFromDay n"]
  by (simp add: isoDate_def)

lemma take_toISOString: "take 10 (toISOString t) = dateKey (Day t)"
  using length_isoDate [of "Day t"] by (simp add: toISOString_def dateKey_def)

lemma utcShift_west: "- 1440 < tz \<Longrightarrow> tz \<le> 0 \<Longrightarrow> utcShift tz = 0"
  by (simp add: utcShift_def div_pos_pos_trivial)

lemma utcShift_east: "0 < tz \<Longrightarrow> tz \<le> 1440 \<Longrightarrow> utcShift tz = - 1"
proof -
  assume tz: "0 < tz" "tz \<le> 1440"
  show ?thesis
  proof (cases "tz = 1440")
    case True
    then show ?thesis
      by (simp add: utcShift_def)
  next
    case False
    with tz have "tz div 1440 = 0" "tz mod 1440 = tz"
      by simp_all
    with tz show ?thesis
      by (simp add: utcShift_def zdiv_zminus1_eq_if)
  qed
qed

subsection \<open>Evaluation\<close>

text \<open>The equations that compute dates, keys and decimal digits on numerals.\<close>

lemma digits_small: "n < 10 \<Longrightarrow> digits n = [digitChar n]"
  by (simp add: digits.simps)

lemma digits_large: "10 \<le> n \<Longrightarrow> digits n = digits (n div 10) @ [digitChar n]"
  by (subst digits.simps) simp

lemma replicate_numeral: "replicate (numeral k) x = x # replicate (pred_numeral k) x"
  by (simp add: numeral_eq_Suc)

lemma YearFromDay_search_step:
  "DayFromYear (y + 1) \<le> n \<Longrightarrow> YearFromDay_search y n = YearFromDay_search (y + 1) n"
  by (subst YearFromDay_search.simps) simp

lemma YearFromDay_search_stop: "n < DayFromYear (y + 1) \<Longrightarrow> YearFromDay_search y n = y"
  by (subst YearFromDay_search.simps) simp

lemmas date_eval = replicate_numeral dateKey_def isoDate_def YearFromDay_def
  YearFromDay_search_step YearFromDay_search_stop DayFromYear_def MonthFromDay_def DateFromDay_def
  DayWithinYear_def InLeapYear_def isLeap_def isoYear_def pad_def
  digits_small digits_large digitChar_def

lemmas parse_eval = parseYMD_def isDigit_def digitsValue_def daysInMonth_def isLeap_def
  MakeDay_def DayFromYear_def daysBeforeMonth_def upto_rec1

lemmas count_eval = countDays_def upto_rec1 presentOn_def absentOn_def lateOn_def
  lateOn_spec_def WeekDay_def

subsection \<open>Day numbers count the days of the calendar\<close>





lemma div_succ: 
  fixes z k :: int
  assumes "1 < k"
  shows "(z + 1) div k = z div k + (if (z + 1) mod k = 0 then 1 else 0)"
proof (cases "(z + 1) mod k = 0")
  case True
  then obtain q where q: "z + 1 = k * q"
    by (auto simp: mod_eq_0_iff_dvd)
  then have z: "z = k * (q - 1) + (k - 1)"
    by (simp add: algebra_simps)
  have "z div k = q - 1"
    unfolding z using assms by (subst div_mult_self4) auto
  moreover have "(z + 1) div k = q"
    unfolding q using assms by simp
  ultimately show ?thesis using True by simp
next
  case False
  have zk: "z + 1 = k * ((z + 1) div k) + (z + 1) mod k"
    by simp
  have "0 \<le> (z + 1) mod k" "(z + 1) mod k < k"
    using assms by simp_all
  with False have pos: "0 < (z + 1) mod k" "(z + 1) mod k < k"
    by linarith+
  have "z = k * ((z + 1) div k) + ((z + 1) mod k - 1)"
    using zk by linarith
  then have "z div k = (k * ((z + 1) div k) + ((z + 1) mod k - 1)) div k"
    by simp
  also have "\<dots> = (z + 1) div k + ((z + 1) mod k - 1) div k"
    using assms by (subst div_mult_self4) auto
  also have "((z + 1) mod k - 1) div k = 0"
    using pos by (intro div_pos_pos_trivial) auto
  finally show ?thesis using False by simp
qed


lemma mod_shift:
  fixes y :: int
  shows "(y - 1968) mod 4 = y mod 4" "(y - 1900) mod 100 = y mod 100" "(y - 1600) mod 400 = y mod 400"
proof -
  have "(y - 492 * 4) mod 4 = y mod 4"
    by (rule mod_mult_self3 [of y 492 4, folded diff_conv_add_uminus, simplified] | simp add: mod_diff_eq [symmetric, of y])+
  then show "(y - 1968) mod 4 = y mod 4" by simp
  have "(y + (- 19) * 100) mod 100 = y mod 100"
    by (rule mod_mult_self1)
  then show "(y - 1900) mod 100 = y mod 100" by simp
  have "(y + (- 4) * 400) mod 400 = y mod 400"
    by (rule mod_mult_self1)
  then show "(y - 1600) mod 400 = y mod 400" by simp
qed

lemma leap_divides:
  fixes y :: int
  shows "y mod 400 = 0 \<Longrightarrow> y mod 100 = 0" "y mod 100 = 0 \<Longrightarrow> y mod 4 = 0"
proof -
  have d: "(100::int) dvd 400" "(4::int) dvd 100" by simp_all
  show "y mod 400 = 0 \<Longrightarrow> y mod 100 = 0"
    using d(1) by (simp only: mod_eq_0_iff_dvd) (rule dvd_trans)
  show "y mod 100 = 0 \<Longrightarrow> y mod 4 = 0"
    using d(2) by (simp only: mod_eq_0_iff_dvd) (rule dvd_trans)
qed

lemma DayFromYear_Suc: "DayFromYear (y + 1) = DayFromYear y + DaysInYear y"
proof -
  define A where "A = (y - 1969) div 4"
  define B where "B = (y - 1901) div 100"
  define C where "C = (y - 1601) div 400"
  have q4: "(y - 1968) div 4 = A + (if y mod 4 = 0 then 1 else 0)"
    using div_succ [of 4 "y - 1969"] mod_shift(1) [of y] by (simp add: A_def)
  have q100: "(y - 1900) div 100 = B + (if y mod 100 = 0 then 1 else 0)"
    using div_succ [of 100 "y - 1901"] mod_shift(2) [of y] by (simp add: B_def)
  have q400: "(y - 1600) div 400 = C + (if y mod 400 = 0 then 1 else 0)"
    using div_succ [of 400 "y - 1601"] mod_shift(3) [of y] by (simp add: C_def)
  have l: "DayFromYear (y + 1) =
      365 * (y - 1969) + (y - 1968) div 4 - (y - 1900) div 100 + (y - 1600) div 400"
    by (simp add: DayFromYear_def)
  have r: "DayFromYear y = 365 * (y - 1970) + A - B + C"
    by (simp add: DayFromYear_def A_def B_def C_def)
  consider "y mod 4 \<noteq> 0" | "y mod 4 = 0" "y mod 100 \<noteq> 0" | "y mod 100 = 0" "y mod 400 \<noteq> 0"
    | "y mod 400 = 0"
    by argo
  then show ?thesis
  proof cases
    case 1
    then have "y mod 100 \<noteq> 0" "y mod 400 \<noteq> 0"
      using leap_divides [of y] by argo+
    with 1 show ?thesis
      using l r q4 q100 q400 by (simp add: DaysInYear_def isLeap_def)
  next
    case 2
    then have "y mod 400 \<noteq> 0"
      using leap_divides [of y] by argo
    with 2 show ?thesis
      using l r q4 q100 q400 by (simp add: DaysInYear_def isLeap_def)
  next
    case 3
    then have "y mod 4 = 0"
      using leap_divides [of y] by argo
    with 3 show ?thesis
      using l r q4 q100 q400 by (simp add: DaysInYear_def isLeap_def)
  next
    case 4
    then have "y mod 4 = 0" "y mod 100 = 0"
      using leap_divides [of y] by argo+
    with 4 show ?thesis
      using l r q4 q100 q400 by (simp add: DaysInYear_def isLeap_def)
  qed
qed


subsection \<open>The calendar date of a day number\<close>

text \<open>
  \<open>YearFromDay\<close> is the year the day lies in, and the year, the month and the day of the
  month of the day number of a calendar date are those of the date.
\<close>

lemma DaysInYear_bounds: "365 \<le> DaysInYear y" "DaysInYear y \<le> 366"
  by (simp_all add: DaysInYear_def)

lemma DayFromYear_1970: "DayFromYear 1970 = 0"
  by (simp add: DayFromYear_def)

lemma DayFromYear_between:
  assumes "y \<le> z"
  shows "DayFromYear y + 365 * (z - y) \<le> DayFromYear z"
    and "DayFromYear z \<le> DayFromYear y + 366 * (z - y)"
proof -
  have "DayFromYear y + 365 * (z - y) \<le> DayFromYear z
      \<and> DayFromYear z \<le> DayFromYear y + 366 * (z - y)"
    using assms
  proof (induction z rule: int_ge_induct)
    case base
    show ?case by simp
  next
    case (step z)
    with DaysInYear_bounds [of z] DayFromYear_Suc [of z] show ?case
      by (simp add: algebra_simps)
  qed
  then show "DayFromYear y + 365 * (z - y) \<le> DayFromYear z"
    and "DayFromYear z \<le> DayFromYear y + 366 * (z - y)"
    by simp_all
qed

lemma DayFromYear_mono: "y \<le> z \<Longrightarrow> DayFromYear y \<le> DayFromYear z"
  using DayFromYear_between(1) [of y z] by simp

lemma DayFromYear_estimate:
  "DayFromYear (1970 + (if 0 \<le> n then n div 366 else n div 365)) \<le> n"
proof (cases "0 \<le> n")
  case True
  then have "0 \<le> n div 366"
    by simp
  then have "DayFromYear (1970 + n div 366) \<le> 366 * (n div 366)"
    using DayFromYear_between(2) [of 1970 "1970 + n div 366"] by (simp add: DayFromYear_1970)
  also have "\<dots> \<le> n"
    using mult_div_mod_eq [of 366 n] pos_mod_sign [of 366 n] by linarith
  finally show ?thesis
    using True by simp
next
  case False
  then have "n div 365 < 0"
    by (simp add: div_neg_pos_less0)
  then have "DayFromYear (1970 + n div 365) + 365 * (- (n div 365)) \<le> 0"
    using DayFromYear_between(1) [of "1970 + n div 365" 1970] by (simp add: DayFromYear_1970)
  then have "DayFromYear (1970 + n div 365) \<le> 365 * (n div 365)"
    by simp
  also have "\<dots> \<le> n"
    using mult_div_mod_eq [of 365 n] pos_mod_sign [of 365 n] by linarith
  finally show ?thesis
    using False by simp
qed

lemma YearFromDay_search_unique:
  assumes "y0 \<le> y" and "DayFromYear y \<le> n" and "n < DayFromYear (y + 1)"
  shows "YearFromDay_search y0 n = y"
  using assms
proof (induction "nat (y - y0)" arbitrary: y0)
  case 0
  then have "y0 = y"
    by simp
  with 0 show ?case
    by (simp add: YearFromDay_search_stop)
next
  case (Suc k)
  then have lt: "y0 + 1 \<le> y" and k: "k = nat (y - (y0 + 1))"
    by linarith+
  have "DayFromYear (y0 + 1) \<le> n"
    using DayFromYear_mono [OF lt] Suc.prems(2) by simp
  then have "YearFromDay_search y0 n = YearFromDay_search (y0 + 1) n"
    by (rule YearFromDay_search_step)
  also have "\<dots> = y"
    using Suc.hyps(1) [OF k lt] Suc.prems by simp
  finally show ?case .
qed

lemma YearFromDay_unique:
  assumes "DayFromYear y \<le> n" and "n < DayFromYear (y + 1)"
  shows "YearFromDay n = y"
proof -
  let ?y0 = "1970 + (if 0 \<le> n then n div 366 else n div 365)"
  have "?y0 \<le> y"
  proof (rule ccontr)
    assume "\<not> ?y0 \<le> y"
    then have "y + 1 \<le> ?y0"
      by simp
    from DayFromYear_mono [OF this] DayFromYear_estimate [of n] assms(2) show False
      by simp
  qed
  then show ?thesis
    unfolding YearFromDay_def using assms by (rule YearFromDay_search_unique)
qed

lemma daysBeforeMonth_table:
  "daysBeforeMonth y 1 = 0"
  "daysBeforeMonth y 2 = 31"
  "daysBeforeMonth y 3 = 59 + (if isLeap y then 1 else 0)"
  "daysBeforeMonth y 4 = 90 + (if isLeap y then 1 else 0)"
  "daysBeforeMonth y 5 = 120 + (if isLeap y then 1 else 0)"
  "daysBeforeMonth y 6 = 151 + (if isLeap y then 1 else 0)"
  "daysBeforeMonth y 7 = 181 + (if isLeap y then 1 else 0)"
  "daysBeforeMonth y 8 = 212 + (if isLeap y then 1 else 0)"
  "daysBeforeMonth y 9 = 243 + (if isLeap y then 1 else 0)"
  "daysBeforeMonth y 10 = 273 + (if isLeap y then 1 else 0)"
  "daysBeforeMonth y 11 = 304 + (if isLeap y then 1 else 0)"
  "daysBeforeMonth y 12 = 334 + (if isLeap y then 1 else 0)"
  by (simp_all add: daysBeforeMonth_def upto_rec1 daysInMonth_def)

lemma month_cases:
  fixes m :: int
  assumes "1 \<le> m" and "m \<le> 12"
  obtains "m = 1" | "m = 2" | "m = 3" | "m = 4" | "m = 5" | "m = 6" | "m = 7" | "m = 8"
    | "m = 9" | "m = 10" | "m = 11" | "m = 12"
proof -
  from assms have "m \<in> set [1..12]"
    by simp
  also have "set [1..12::int] = {1, 2, 3, 4, 5, 6, 7, 8, 9, 10, 11, 12}"
    by (simp add: upto_rec1)
  finally show ?thesis
    using that by blast
qed

lemma dayWithinYear_valid:
  assumes "validDate (y, m, d)"
  shows "0 \<le> daysBeforeMonth y m + d - 1" and "daysBeforeMonth y m + d - 1 < DaysInYear y"
proof -
  from assms have v: "1 \<le> m" "m \<le> 12" "1 \<le> d" "d \<le> daysInMonth y m"
    by (simp_all add: validDate_def)
  from v(1,2) have "0 \<le> daysBeforeMonth y m + d - 1 \<and> daysBeforeMonth y m + d - 1 < DaysInYear y"
    by (cases rule: month_cases)
       (use v(3,4) in \<open>simp_all add: daysBeforeMonth_table daysInMonth_def DaysInYear_def
          split: if_splits\<close>)
  then show "0 \<le> daysBeforeMonth y m + d - 1" and "daysBeforeMonth y m + d - 1 < DaysInYear y"
    by simp_all
qed

lemma MakeDay_in_year:
  assumes "validDate (y, m, d)"
  shows "DayFromYear y \<le> MakeDay y m d" and "MakeDay y m d < DayFromYear (y + 1)"
  using dayWithinYear_valid [OF assms] by (simp_all add: MakeDay_def DayFromYear_Suc)

lemma YearFromDay_MakeDay: "validDate (y, m, d) \<Longrightarrow> YearFromDay (MakeDay y m d) = y"
  by (rule YearFromDay_unique) (rule MakeDay_in_year, assumption)+

lemma Month_Date_MakeDay:
  assumes "validDate (y, m, d)"
  shows "MonthFromDay (MakeDay y m d) = m - 1" and "DateFromDay (MakeDay y m d) = d"
proof -
  define n where "n = MakeDay y m d"
  define w where "w = DayWithinYear n"
  define L where "L = InLeapYear n"
  from assms have v: "1 \<le> m" "m \<le> 12" "1 \<le> d" "d \<le> daysInMonth y m"
    by (simp_all add: validDate_def)
  have yr: "YearFromDay n = y"
    unfolding n_def using assms by (rule YearFromDay_MakeDay)
  have w: "w = daysBeforeMonth y m + d - 1"
    by (simp add: w_def DayWithinYear_def yr) (simp add: n_def MakeDay_def)
  have L: "L = (if isLeap y then 1 else 0)"
    by (simp add: L_def InLeapYear_def yr)
  have M: "MonthFromDay n =
     (if w < 31 then 0 else if w < 59 + L then 1 else if w < 90 + L then 2
      else if w < 120 + L then 3 else if w < 151 + L then 4 else if w < 181 + L then 5
      else if w < 212 + L then 6 else if w < 243 + L then 7 else if w < 273 + L then 8
      else if w < 304 + L then 9 else if w < 334 + L then 10 else 11)"
    by (simp only: MonthFromDay_def w_def L_def)
  have month: "MonthFromDay n = m - 1"
    using v(1,2)
    by (cases rule: month_cases)
       (use v(3,4) in \<open>simp_all add: M w L daysBeforeMonth_table daysInMonth_def
          split: if_splits\<close>)
  have D: "DateFromDay n =
     (if m - 1 = 0 then w + 1 else if m - 1 = 1 then w - 30 else if m - 1 = 2 then w - 58 - L
      else if m - 1 = 3 then w - 89 - L else if m - 1 = 4 then w - 119 - L
      else if m - 1 = 5 then w - 150 - L else if m - 1 = 6 then w - 180 - L
      else if m - 1 = 7 then w - 211 - L else if m - 1 = 8 then w - 242 - L
      else if m - 1 = 9 then w - 272 - L else if m - 1 = 10 then w - 303 - L
      else w - 333 - L)"
    by (simp only: DateFromDay_def month w_def L_def)
  have date: "DateFromDay n = d"
    using v(1,2)
    by (cases rule: month_cases) (simp_all add: D w L daysBeforeMonth_table)
  from month date show "MonthFromDay (MakeDay y m d) = m - 1" and "DateFromDay (MakeDay y m d) = d"
    by (simp_all add: n_def)
qed

lemma YearFromDay_search_bounds:
  "DayFromYear y \<le> n \<Longrightarrow>
     DayFromYear (YearFromDay_search y n) \<le> n \<and> n < DayFromYear (YearFromDay_search y n + 1)"
proof (induction y n rule: YearFromDay_search.induct)
  case (1 y n)
  show ?case
  proof (cases "DayFromYear (y + 1) \<le> n")
    case True
    with "1.IH" show ?thesis
      by (simp add: YearFromDay_search_step)
  next
    case False
    with "1.prems" show ?thesis
      by (simp add: YearFromDay_search_stop)
  qed
qed

lemma YearFromDay_bounds:
  "DayFromYear (YearFromDay n) \<le> n" "n < DayFromYear (YearFromDay n + 1)"
  using YearFromDay_search_bounds [OF DayFromYear_estimate, of n]
  by (simp_all add: YearFromDay_def)

lemma DayWithinYear_bounds: "0 \<le> DayWithinYear n" "DayWithinYear n < DaysInYear (YearFromDay n)"
  using YearFromDay_bounds [of n] by (simp_all add: DayWithinYear_def DayFromYear_Suc)

lemma MakeDay_civil:
  "validDate (YearFromDay n, MonthFromDay n + 1, DateFromDay n)
   \<and> MakeDay (YearFromDay n) (MonthFromDay n + 1) (DateFromDay n) = n"
proof -
  define y where "y = YearFromDay n"
  define w where "w = DayWithinYear n"
  define L :: int where "L = (if isLeap y then 1 else 0)"
  have L: "InLeapYear n = L"
    by (simp add: InLeapYear_def L_def y_def)
  have w: "0 \<le> w" "w < 365 + L"
    using DayWithinYear_bounds [of n]
    by (simp_all add: w_def L_def y_def DaysInYear_def split: if_splits)
  have n: "n = DayFromYear y + w"
    by (simp add: w_def y_def DayWithinYear_def)
  have M: "MonthFromDay n =
     (if w < 31 then 0 else if w < 59 + L then 1 else if w < 90 + L then 2
      else if w < 120 + L then 3 else if w < 151 + L then 4 else if w < 181 + L then 5
      else if w < 212 + L then 6 else if w < 243 + L then 7 else if w < 273 + L then 8
      else if w < 304 + L then 9 else if w < 334 + L then 10 else 11)"
    by (simp only: MonthFromDay_def w_def L)
  have D: "DateFromDay n =
     (if MonthFromDay n = 0 then w + 1 else if MonthFromDay n = 1 then w - 30
      else if MonthFromDay n = 2 then w - 58 - L else if MonthFromDay n = 3 then w - 89 - L
      else if MonthFromDay n = 4 then w - 119 - L else if MonthFromDay n = 5 then w - 150 - L
      else if MonthFromDay n = 6 then w - 180 - L else if MonthFromDay n = 7 then w - 211 - L
      else if MonthFromDay n = 8 then w - 242 - L else if MonthFromDay n = 9 then w - 272 - L
      else if MonthFromDay n = 10 then w - 303 - L else w - 333 - L)"
    by (simp only: DateFromDay_def w_def L)
  have L01: "L = 0 \<or> L = 1"
    by (simp add: L_def)
  consider "w < 31" | "31 \<le> w" "w < 59 + L" | "59 + L \<le> w" "w < 90 + L"
    | "90 + L \<le> w" "w < 120 + L" | "120 + L \<le> w" "w < 151 + L" | "151 + L \<le> w" "w < 181 + L"
    | "181 + L \<le> w" "w < 212 + L" | "212 + L \<le> w" "w < 243 + L" | "243 + L \<le> w" "w < 273 + L"
    | "273 + L \<le> w" "w < 304 + L" | "304 + L \<le> w" "w < 334 + L" | "334 + L \<le> w"
    by linarith
  then have "validDate (y, MonthFromDay n + 1, DateFromDay n)
      \<and> MakeDay y (MonthFromDay n + 1) (DateFromDay n) = DayFromYear y + w"
  proof cases
    case 1
    then have "MonthFromDay n = 0" by (simp add: M)
    with 1 w show ?thesis
      by (simp add: D validDate_def MakeDay_def daysBeforeMonth_table daysInMonth_def)
  next
    case 2
    then have "MonthFromDay n = 1" by (simp add: M)
    with 2 w L01 show ?thesis
      by (auto simp: D validDate_def MakeDay_def daysBeforeMonth_table daysInMonth_def L_def
          split: if_splits)
  next
    case 3
    then have "MonthFromDay n = 2" using L01 by (auto simp: M)
    with 3 w show ?thesis
      by (simp add: D validDate_def MakeDay_def daysBeforeMonth_table daysInMonth_def L_def)
  next
    case 4
    then have "MonthFromDay n = 3" using L01 by (auto simp: M)
    with 4 w show ?thesis
      by (simp add: D validDate_def MakeDay_def daysBeforeMonth_table daysInMonth_def L_def)
  next
    case 5
    then have "MonthFromDay n = 4" using L01 by (auto simp: M)
    with 5 w show ?thesis
      by (simp add: D validDate_def MakeDay_def daysBeforeMonth_table daysInMonth_def L_def)
  next
    case 6
    then have "MonthFromDay n = 5" using L01 by (auto simp: M)
    with 6 w show ?thesis
      by (simp add: D validDate_def MakeDay_def daysBeforeMonth_table daysInMonth_def L_def)
  next
    case 7
    then have "MonthFromDay n = 6" using L01 by (auto simp: M)
    with 7 w show ?thesis
      by (simp add: D validDate_def MakeDay_def daysBeforeMonth_table daysInMonth_def L_def)
  next
    case 8
    then have "MonthFromDay n = 7" using L01 by (auto simp: M)
    with 8 w show ?thesis
      by (simp add: D validDate_def MakeDay_def daysBeforeMonth_table daysInMonth_def L_def)
  next
    case 9
    then have "MonthFromDay n = 8" using L01 by (auto simp: M)
    with 9 w show ?thesis
      by (simp add: D validDate_def MakeDay_def daysBeforeMonth_table daysInMonth_def L_def)
  next
    case 10
    then have "MonthFromDay n = 9" using L01 by (auto simp: M)
    with 10 w show ?thesis
      by (simp add: D validDate_def MakeDay_def daysBeforeMonth_table daysInMonth_def L_def)
  next
    case 11
    then have "MonthFromDay n = 10" using L01 by (auto simp: M)
    with 11 w show ?thesis
      by (simp add: D validDate_def MakeDay_def daysBeforeMonth_table daysInMonth_def L_def)
  next
    case 12
    then have "MonthFromDay n = 11" using L01 by (auto simp: M)
    with 12 w show ?thesis
      by (simp add: D validDate_def MakeDay_def daysBeforeMonth_table daysInMonth_def L_def)
  qed
  then show ?thesis
    by (simp add: y_def n [symmetric, unfolded y_def])
qed

subsection \<open>Date strings\<close>

text \<open>
  The key of the day of a valid calendar date is the date string itself: the record that
  the application stores under a date is the one that is looked up under the key of that
  day.
\<close>

lemma digitChar_of_char:
  assumes "isDigit c"
  shows "digitChar (of_char c - 48) = c"
proof -
  define k where "k = (of_char c :: nat) - 48"
  from assms have k: "of_char c = 48 + k" "k < 10"
    unfolding isDigit_def k_def by linarith+
  from k(2) have "k = 0 \<or> k = 1 \<or> k = 2 \<or> k = 3 \<or> k = 4 \<or> k = 5 \<or> k = 6 \<or> k = 7
      \<or> k = 8 \<or> k = 9"
    by arith
  then have "(of_char (digitChar k) :: nat) = 48 + k"
    by (auto simp: digitChar_def)
  with k(1) have "(of_char (digitChar k) :: nat) = of_char c"
    by simp
  then show ?thesis
    by (simp add: k_def)
qed

lemma digits_snoc:
  assumes "0 < q" and "r < 10"
  shows "digits (10 * q + r) = digits q @ [digitChar r]"
proof -
  have "digits (10 * q + r) = digits ((10 * q + r) div 10) @ [digitChar (10 * q + r)]"
    using assms by (intro digits_large) simp
  moreover have "(10 * q + r) div 10 = q"
    using assms by simp
  moreover have "digitChar (10 * q + r) = digitChar r"
    using assms by (simp add: digitChar_def)
  ultimately show ?thesis
    by simp
qed

lemma digitsValue_snoc:
  "digitsValue (ds @ [c]) = 10 * digitsValue ds + (int (of_char c) - 48)"
  by (simp add: digitsValue_def)

lemma digitsValue_bounds:
  assumes "list_all isDigit ds"
  shows "0 \<le> digitsValue ds \<and> digitsValue ds < 10 ^ length ds"
  using assms
proof (induction ds rule: rev_induct)
  case Nil
  show ?case by (simp add: digitsValue_def)
next
  case (snoc c ds)
  then have "48 \<le> (of_char c :: nat)" "(of_char c :: nat) \<le> 57"
    by (simp_all add: isDigit_def)
  with snoc show ?case
    by (simp add: digitsValue_snoc)
qed

lemma pad_digitsValue:
  assumes "list_all isDigit ds" and "ds \<noteq> []"
  shows "pad (length ds) (digitsValue ds) = ds"
  using assms(2,1)
proof (induction ds rule: rev_nonempty_induct)
  case (single c)
  then have c: "isDigit c"
    by simp
  then have "nat (digitsValue [c]) = of_char c - 48" "(of_char c :: nat) - 48 < 10"
    unfolding isDigit_def digitsValue_def by (simp, linarith)
  with digitChar_of_char [OF c] show ?case
    by (simp add: pad_def digits_small)
next
  case (snoc c ds)
  then have c: "isDigit c" and ds: "list_all isDigit ds"
    by simp_all
  define q where "q = nat (digitsValue ds)"
  define r where "r = (of_char c :: nat) - 48"
  have r: "r < 10" "digitChar r = c"
    using c digitChar_of_char [OF c] unfolding r_def isDigit_def by (linarith, simp)
  have q: "digitsValue ds = int q"
    using digitsValue_bounds [OF ds] by (simp add: q_def)
  have "int r = int (of_char c) - 48"
    using c unfolding r_def isDigit_def by linarith
  then have "digitsValue (ds @ [c]) = int (10 * q + r)"
    by (simp add: digitsValue_snoc q)
  then have v: "nat (digitsValue (ds @ [c])) = 10 * q + r"
    by (simp only: nat_int)
  have IH: "replicate (length ds - length (digits q)) CHR ''0'' @ digits q = ds"
    using snoc.IH [OF ds] by (simp add: pad_def q)
  show ?case
  proof (cases "q = 0")
    case True
    have "digits 0 = ''0''"
      by (simp add: digits_small digitChar_def)
    with IH True have "replicate (length ds - 1) CHR ''0'' @ ''0'' = ds"
      by simp
    then have "ds = replicate (length ds) CHR ''0''"
      using snoc.hyps by (metis Suc_pred length_greater_0_conv replicate_Suc replicate_append_same One_nat_def)
    moreover have "digits (10 * q + r) = [c]"
      using True r by (simp add: digits_small)
    ultimately show ?thesis
      unfolding pad_def v by simp
  next
    case False
    then have d: "digits (10 * q + r) = digits q @ [c]"
      using r digits_snoc [of q r] by simp
    have "length (digits q) \<le> length ds"
      using IH by (metis length_append le_add2)
    then show ?thesis
      unfolding pad_def v d using IH by (simp add: Suc_diff_le)
  qed
qed

lemma split_date_string:
  assumes "length s = 10"
  shows "s = take 4 s @ [s ! 4] @ take 2 (drop 5 s) @ [s ! 7] @ drop 8 s"
proof -
  from assms obtain a0 a1 a2 a3 a4 a5 a6 a7 a8 a9 where
    "s = [a0, a1, a2, a3, a4, a5, a6, a7, a8, a9]"
    by (auto simp: length_Suc_conv numeral_eq_Suc)
  then show ?thesis
    by simp
qed

lemma parseYMD_Some:
  assumes "parseYMD s = Some n"
  obtains y m d where
    "s = take 4 s @ ''-'' @ take 2 (drop 5 s) @ ''-'' @ drop 8 s"
    "list_all isDigit (take 4 s)" "list_all isDigit (take 2 (drop 5 s))"
    "list_all isDigit (drop 8 s)" "length s = 10"
    "y = digitsValue (take 4 s)" "m = digitsValue (take 2 (drop 5 s))"
    "d = digitsValue (drop 8 s)" "validDate (y, m, d)" "n = MakeDay y m d"
proof -
  from assms have c: "length s = 10" "s ! 4 = CHR ''-''" "s ! 7 = CHR ''-''"
    "list_all isDigit (take 4 s)" "list_all isDigit (take 2 (drop 5 s))"
    "list_all isDigit (drop 8 s)"
    by (simp_all add: parseYMD_def split: if_splits)
  with assms have v: "validDate (digitsValue (take 4 s), digitsValue (take 2 (drop 5 s)),
      digitsValue (drop 8 s))"
    and n: "n = MakeDay (digitsValue (take 4 s)) (digitsValue (take 2 (drop 5 s)))
      (digitsValue (drop 8 s))"
    by (simp_all add: parseYMD_def validDate_def Let_def split: if_splits)
  from split_date_string [OF c(1)] c(2,3)
  have "s = take 4 s @ ''-'' @ take 2 (drop 5 s) @ ''-'' @ drop 8 s"
    by simp
  with c v n show ?thesis
    using that by blast
qed

lemma dateKey_parseYMD:
  assumes "parseYMD s = Some n"
  shows "dateKey n = s"
proof -
  from assms obtain y m d where
    s: "s = take 4 s @ ''-'' @ take 2 (drop 5 s) @ ''-'' @ drop 8 s"
    and dg: "list_all isDigit (take 4 s)" "list_all isDigit (take 2 (drop 5 s))"
      "list_all isDigit (drop 8 s)"
    and len: "length s = 10"
    and y: "y = digitsValue (take 4 s)" and m: "m = digitsValue (take 2 (drop 5 s))"
    and d: "d = digitsValue (drop 8 s)"
    and v: "validDate (y, m, d)" and n: "n = MakeDay y m d"
    by (rule parseYMD_Some)
  have l: "length (take 4 s) = 4" "length (take 2 (drop 5 s)) = 2" "length (drop 8 s) = 2"
    using len by simp_all
  then have ne: "take 4 s \<noteq> []" "take 2 (drop 5 s) \<noteq> []" "drop 8 s \<noteq> []"
    by auto
  have py: "pad 4 y = take 4 s"
    using pad_digitsValue [OF dg(1) ne(1)] by (simp only: l y)
  have pm: "pad 2 m = take 2 (drop 5 s)"
    using pad_digitsValue [OF dg(2) ne(2)] by (simp only: l m)
  have pd: "pad 2 d = drop 8 s"
    using pad_digitsValue [OF dg(3) ne(3)] by (simp only: l d)
  have "0 \<le> y \<and> y < 10 ^ 4"
    using digitsValue_bounds [OF dg(1)] by (simp only: l y)
  then have iy: "isoYear y = pad 4 y"
    by (simp add: isoYear_def)
  have "isoDate n = pad 4 y @ ''-'' @ pad 2 m @ ''-'' @ pad 2 d"
    by (simp add: isoDate_def n YearFromDay_MakeDay [OF v] Month_Date_MakeDay [OF v] iy)
  also have "\<dots> = s"
    unfolding py pm pd using s by simp
  finally show ?thesis
    using len by (simp add: dateKey_def)
qed

text \<open>
  And the key of every day of the years 0 to 9999 is the valid calendar date of that day.
  The valid calendar dates are days of these years.
\<close>

lemma of_char_digitChar: "(of_char (digitChar k) :: nat) = 48 + k mod 10"
proof -
  have "k mod 10 < 10"
    by simp
  then have "k mod 10 = 0 \<or> k mod 10 = 1 \<or> k mod 10 = 2 \<or> k mod 10 = 3 \<or> k mod 10 = 4
      \<or> k mod 10 = 5 \<or> k mod 10 = 6 \<or> k mod 10 = 7 \<or> k mod 10 = 8 \<or> k mod 10 = 9"
    by arith
  then show ?thesis
    unfolding digitChar_def by (elim disjE) simp_all
qed

lemma isDigit_digitChar: "isDigit (digitChar k)"
proof -
  have "k mod 10 < 10"
    by simp
  then show ?thesis
    unfolding isDigit_def of_char_digitChar by linarith
qed

lemma digits_isDigit: "list_all isDigit (digits k)"
proof (induction k rule: digits.induct)
  case (1 n)
  show ?case
  proof (cases "n < 10")
    case True
    then show ?thesis
      by (simp add: digits_small isDigit_digitChar)
  next
    case False
    with 1 show ?thesis
      by (simp add: digits_large isDigit_digitChar)
  qed
qed

lemma digitsValue_digits: "digitsValue (digits k) = int k"
proof (induction k rule: digits.induct)
  case (1 n)
  show ?case
  proof (cases "n < 10")
    case True
    then show ?thesis
      by (simp add: digits_small digitsValue_def of_char_digitChar)
  next
    case False
    then have "digitsValue (digits n) = 10 * int (n div 10) + int (n mod 10)"
      using 1 by (simp add: digits_large digitsValue_snoc of_char_digitChar)
    also have "\<dots> = int n"
      using mult_div_mod_eq [of 10 n] by linarith
    finally show ?thesis .
  qed
qed

lemma length_digits: "k < 10 ^ w \<Longrightarrow> 0 < w \<Longrightarrow> length (digits k) \<le> w"
proof (induction w arbitrary: k)
  case 0
  then show ?case by simp
next
  case (Suc w)
  show ?case
  proof (cases "k < 10")
    case True
    then show ?thesis
      by (simp add: digits_small)
  next
    case False
    then have w: "0 < w"
      using Suc.prems(1) by (cases w) simp_all
    have "k div 10 < 10 ^ w"
      using Suc.prems(1) by (simp add: less_mult_imp_div_less mult.commute)
    from Suc.IH [OF this w] False show ?thesis
      by (simp add: digits_large)
  qed
qed

lemma digitsValue_zeros: "digitsValue (replicate z CHR ''0'' @ ds) = digitsValue ds"
  by (induction z) (simp_all add: digitsValue_def)

lemma pad_parse:
  assumes "0 \<le> v" and "v < 10 ^ w" and "0 < w"
  shows "length (pad w v) = w" and "list_all isDigit (pad w v)" and "digitsValue (pad w v) = v"
proof -
  have "nat v < 10 ^ w"
    using assms(1,2) by (simp add: nat_less_iff)
  then have len: "length (digits (nat v)) \<le> w"
    using assms(3) by (rule length_digits)
  then show "length (pad w v) = w"
    by (simp add: pad_def)
  have "isDigit CHR ''0''"
    by (simp add: isDigit_def)
  then have "list_all isDigit (replicate (w - length (digits (nat v))) CHR ''0'')"
    by (simp add: list_all_iff)
  then show "list_all isDigit (pad w v)"
    by (simp add: pad_def digits_isDigit)
  show "digitsValue (pad w v) = v"
    using assms(1) by (simp add: pad_def digitsValue_zeros digitsValue_digits)
qed

lemma parseYMD_dateKey:
  assumes "DayFromYear 0 \<le> n" and "n < DayFromYear 10000"
  shows "parseYMD (dateKey n) = Some n"
proof -
  define y where "y = YearFromDay n"
  define m where "m = MonthFromDay n + 1"
  define d where "d = DateFromDay n"
  have v: "validDate (y, m, d)" and n: "MakeDay y m d = n"
    using MakeDay_civil [of n] by (simp_all add: y_def m_def d_def)
  have "\<not> 10000 \<le> y"
  proof
    assume "10000 \<le> y"
    from DayFromYear_mono [OF this] YearFromDay_bounds(1) [of n] assms(2) show False
      by (simp add: y_def)
  qed
  moreover have "\<not> y + 1 \<le> 0"
  proof
    assume "y + 1 \<le> 0"
    from DayFromYear_mono [OF this] YearFromDay_bounds(2) [of n] assms(1) show False
      by (simp add: y_def)
  qed
  ultimately have y: "0 \<le> y" "y < 10 ^ 4" "y \<le> 9999"
    by simp_all
  from v have m: "0 \<le> m" "m < 10 ^ 2" and d: "0 \<le> d" "d < 10 ^ 2"
    by (auto simp: validDate_def daysInMonth_def split: if_splits)
  define A where "A = pad 4 y"
  define B where "B = pad 2 m"
  define C where "C = pad 2 d"
  have A: "length A = 4" "list_all isDigit A" "digitsValue A = y"
    unfolding A_def using pad_parse [OF y(1,2)] by simp_all
  have B: "length B = 2" "list_all isDigit B" "digitsValue B = m"
    unfolding B_def using pad_parse [OF m] by simp_all
  have C: "length C = 2" "list_all isDigit C" "digitsValue C = d"
    unfolding C_def using pad_parse [OF d] by simp_all
  have key: "dateKey n = A @ ''-'' @ B @ ''-'' @ C"
    using y(1,3) A(1) B(1) C(1)
    by (simp add: dateKey_def isoDate_def isoYear_def y_def [symmetric] m_def [symmetric]
        d_def [symmetric] A_def [symmetric] B_def [symmetric] C_def [symmetric])
  have parts: "length (A @ ''-'' @ B @ ''-'' @ C) = 10"
    "(A @ ''-'' @ B @ ''-'' @ C) ! 4 = CHR ''-''" "(A @ ''-'' @ B @ ''-'' @ C) ! 7 = CHR ''-''"
    "take 4 (A @ ''-'' @ B @ ''-'' @ C) = A" "take 2 (drop 5 (A @ ''-'' @ B @ ''-'' @ C)) = B"
    "drop 8 (A @ ''-'' @ B @ ''-'' @ C) = C"
    using A(1) B(1) C(1) by (simp_all add: nth_append)
  from v have "1 \<le> m \<and> m \<le> 12 \<and> 1 \<le> d \<and> d \<le> daysInMonth y m"
    by (simp add: validDate_def)
  then show ?thesis
    unfolding key parseYMD_def parts by (simp add: A B C n)
qed

lemma parseYMD_range:
  assumes "parseYMD s = Some n"
  shows "DayFromYear 0 \<le> n" and "n < DayFromYear 10000"
proof -
  from assms obtain y m d where
    dg: "list_all isDigit (take 4 s)" and len: "length s = 10"
    and y: "y = digitsValue (take 4 s)"
    and v: "validDate (y, m, d)" and n: "n = MakeDay y m d"
    by (rule parseYMD_Some)
  have "length (take 4 s) = 4"
    using len by simp
  with digitsValue_bounds [OF dg] have "0 \<le> y" "y + 1 \<le> 10000"
    by (simp_all add: y)
  from DayFromYear_mono [OF this(1)] DayFromYear_mono [OF this(2)] MakeDay_in_year [OF v]
  show "DayFromYear 0 \<le> n" and "n < DayFromYear 10000"
    by (simp_all add: n)
qed


subsection \<open>The days of the calendar, one after the other\<close>



lemma civilDate_dayNumber: "validDate ymd \<Longrightarrow> civilDate (dayNumber ymd) = ymd"
  by (cases ymd) (simp add: civilDate_def dayNumber_def YearFromDay_MakeDay Month_Date_MakeDay)





lemma parseYMD_iff:
  "(\<exists>n. parseYMD s = Some n) \<longleftrightarrow>
     (\<exists>n. DayFromYear 0 \<le> n \<and> n < DayFromYear 10000 \<and> s = dateKey n)"
proof
  assume "\<exists>n. parseYMD s = Some n"
  then obtain n where "parseYMD s = Some n" ..
  from parseYMD_range [OF this] dateKey_parseYMD [OF this]
  show "\<exists>n. DayFromYear 0 \<le> n \<and> n < DayFromYear 10000 \<and> s = dateKey n"
    by auto
next
  assume "\<exists>n. DayFromYear 0 \<le> n \<and> n < DayFromYear 10000 \<and> s = dateKey n"
  then show "\<exists>n. parseYMD s = Some n"
    using parseYMD_dateKey by blast
qed

lemma parseYMD_civilDate:
  assumes "parseYMD s = Some n"
  shows "civilDate n = (digitsValue (take 4 s), digitsValue (take 2 (drop 5 s)),
    digitsValue (drop 8 s))"
proof -
  from assms obtain y m d where
    "y = digitsValue (take 4 s)" "m = digitsValue (take 2 (drop 5 s))"
    "d = digitsValue (drop 8 s)" "validDate (y, m, d)" "n = MakeDay y m d"
    by (rule parseYMD_Some)
  then show ?thesis
    using civilDate_dayNumber [of "(y, m, d)"] by (simp add: dayNumber_def)
qed

subsection \<open>The Date constructor\<close>

text \<open>
  The Date constructor takes every valid calendar date, at local midnight of its day,
  whatever the engine does with other strings; and what it reads as a date of the format
  is a year, a year and a month, or a year, a month and a day.
\<close>

lemma not_isDigit_minus: "\<not> isDigit CHR ''-''"
  by (simp add: isDigit_def)

lemma fixedNumber_digits:
  assumes "list_all isDigit ds" and "r = [] \<or> \<not> isDigit (hd r)"
  shows "fixedNumber (length ds) (ds @ r) = Some (digitsValue ds, r)"
proof -
  have r: "takeWhile isDigit r = []" "dropWhile isDigit r = r"
    using assms(2) by (cases r; simp)+
  have "takeWhile isDigit (ds @ r) = ds" "dropWhile isDigit (ds @ r) = r"
    using assms(1) r by (simp_all add: takeWhile_append2 dropWhile_append2 list_all_iff)
  then show ?thesis
    by (simp add: fixedNumber_def)
qed


lemma scanField_minus:
  assumes "twoDigits ms" and "r = [] \<or> \<not> isDigit (hd r)"
  shows "scanField hi (''-'' @ ms @ r) =
    (if 1 \<le> digitsValue ms \<and> digitsValue ms \<le> hi then Some (digitsValue ms, r) else None)"
proof -
  from assms(1) have "length ms = 2" "list_all isDigit ms"
    by (simp_all add: twoDigits_def)
  with fixedNumber_digits [OF this(2) assms(2)] show ?thesis
    by (simp add: scanField_def)
qed

lemma parseISO_parseYMD:
  assumes "parseYMD s = Some n"
  shows "parseISO s = Some n"
proof -
  from assms obtain y m d where
    s: "s = take 4 s @ ''-'' @ take 2 (drop 5 s) @ ''-'' @ drop 8 s"
    and dg: "list_all isDigit (take 4 s)" "list_all isDigit (take 2 (drop 5 s))"
      "list_all isDigit (drop 8 s)"
    and len: "length s = 10"
    and y: "y = digitsValue (take 4 s)" and m: "m = digitsValue (take 2 (drop 5 s))"
    and d: "d = digitsValue (drop 8 s)"
    and v: "validDate (y, m, d)" and n: "n = MakeDay y m d"
    by (rule parseYMD_Some)
  define A where "A = take 4 s"
  define B where "B = take 2 (drop 5 s)"
  define C where "C = drop 8 s"
  have A: "length A = 4" "list_all isDigit A" and B: "twoDigits B" and C: "twoDigits C"
    using len dg by (simp_all add: A_def B_def C_def twoDigits_def)
  have sABC: "s = A @ ''-'' @ B @ ''-'' @ C"
    using s by (simp add: A_def B_def C_def)
  from v have md: "1 \<le> m" "m \<le> 12" "1 \<le> d" "d \<le> 31"
    by (auto simp: validDate_def daysInMonth_def split: if_splits)
  have hdA: "A \<noteq> []" "hd A \<noteq> CHR ''+''" "hd A \<noteq> CHR ''-''"
    using A by (cases A; auto simp: isDigit_def)+
  have 1: "scanYear s = Some (y, ''-'' @ B @ ''-'' @ C)"
    using fixedNumber_digits [OF A(2), of "''-'' @ B @ ''-'' @ C"] A(1) hdA
    by (simp add: scanYear_def sABC not_isDigit_minus y A_def [symmetric])
  have 2: "scanField 12 (''-'' @ B @ ''-'' @ C) = Some (m, ''-'' @ C)"
    using scanField_minus [OF B, of "''-'' @ C" 12] md
    by (simp add: not_isDigit_minus m B_def [symmetric])
  have 3: "scanField 31 (''-'' @ C) = Some (d, [])"
    using scanField_minus [OF C, of "[]" 31] md
    by (simp add: d C_def [symmetric])
  from 1 2 3 show ?thesis
    by (simp add: parseISO_def n)
qed

lemma newDate_parseYMD:
  assumes "parseYMD s = Some n"
  shows "newDate fb tz s = Some (localMidnight tz n)"
proof -
  have "DayFromYear 0 = - 719528" "DayFromYear 10000 = 2932897"
    by (simp_all add: DayFromYear_def)
  with parseYMD_range [OF assms] have "- maxDay \<le> n" "n \<le> maxDay"
    by (simp_all add: maxDay_def)
  then show ?thesis
    by (simp add: newDate_def parseISO_parseYMD [OF assms])
qed







section \<open>The date range\<close>

text \<open>
  The loop of \<^verbatim>\<open>dateRangeDays\<close> from local midnight of day \<open>a\<close> to local midnight of day
  \<open>b\<close> visits the days \<open>[a..b]\<close>.
\<close>

lemma dateRangeDays_loop_count:
  "dateRangeDays_loop tz (localMidnight tz a) (localMidnight tz b) tot sun =
     (tot + int (length [a..b]), sun + int (length (filter (\<lambda>n. WeekDay n = 0) [a..b])))"
proof (induction a b arbitrary: tot sun rule: upto.induct)
  case (1 i j)
  show ?case
  proof (cases "i \<le> j")
    case True
    have up: "[i..j] = i # [i + 1..j]"
      using True by (simp add: upto_rec1)
    show ?thesis
      using True "1.IH"[OF True]
      by (subst dateRangeDays_loop.simps)
         (simp add: localMidnight_le setDateNext_localMidnight getDay_localMidnight up)
  next
    case False
    then show ?thesis
      by (subst dateRangeDays_loop.simps) (simp add: localMidnight_le)
  qed
qed

lemma dateRangeDays_midnight:
  assumes "newDate fb tz start = Some (localMidnight tz a)"
    and "newDate fb tz end = Some (localMidnight tz b)"
  shows "dateRangeDays fb tz start end =
    (if a > b then None
     else Some \<lparr>totalDays = int (length [a..b]),
                 sundays = int (length (filter (\<lambda>n. WeekDay n = 0) [a..b])),
                 workingDays = int (length [a..b]) - int (length (filter (\<lambda>n. WeekDay n = 0) [a..b]))\<rparr>)"
  by (simp add: dateRangeDays_def assms localMidnight_less dateRangeDays_loop_count)

lemma dateRangeDays_parsed:
  assumes "parseYMD start = Some a" and "parseYMD end = Some b"
  shows "dateRangeDays fb tz start end =
    (if a > b then None
     else Some \<lparr>totalDays = int (length [a..b]),
                 sundays = int (length (filter (\<lambda>n. WeekDay n = 0) [a..b])),
                 workingDays = int (length [a..b]) - int (length (filter (\<lambda>n. WeekDay n = 0) [a..b]))\<rparr>)"
  by (rule dateRangeDays_midnight) (simp_all add: newDate_parseYMD assms)



section \<open>The statistics\<close>

text \<open>
  The inner loop of \<^verbatim>\<open>computeStats\<close> visits the local days \<open>[a..b]\<close> and looks each day
  \<open>n\<close> up under the key of its UTC day, \<open>n + utcShift tz\<close>.
\<close>

lemma computeStats_body_localMidnight:
  "computeStats_body tz (records lab) (localMidnight tz n) (p, ab, l) =
     (if presentOn lab (n + utcShift tz) then p + 1 else p,
      if \<not> presentOn lab (n + utcShift tz) \<and> WeekDay n \<noteq> 0 then ab + 1 else ab,
      if lateOn lab (n + utcShift tz) then l + 1 else l)"
  by (cases "records lab (dateKey (n + utcShift tz))")
     (simp_all add: computeStats_body_def take_toISOString Day_localMidnight getDay_localMidnight
        presentOn_def lateOn_def utcShift_def)

lemma computeStats_loop_count:
  "computeStats_loop tz (records lab) (localMidnight tz a) (localMidnight tz b) (p, ab, l) =
     (p + countDays (\<lambda>n. presentOn lab (n + utcShift tz)) a b,
      ab + countDays (\<lambda>n. \<not> presentOn lab (n + utcShift tz) \<and> WeekDay n \<noteq> 0) a b,
      l + countDays (\<lambda>n. lateOn lab (n + utcShift tz)) a b)"
proof (induction a b arbitrary: p ab l rule: upto.induct)
  case (1 i j)
  show ?case
  proof (cases "i \<le> j")
    case True
    have up: "[i..j] = i # [i + 1..j]"
      using True by (simp add: upto_rec1)
    show ?thesis
      using True
      by (subst computeStats_loop.simps)
         (simp add: localMidnight_le setDateNext_localMidnight computeStats_body_localMidnight
            "1.IH"[OF True] countDays_def up)
  next
    case False
    then show ?thesis
      by (subst computeStats_loop.simps) (simp add: localMidnight_le countDays_def)
  qed
qed

lemma computeStats_midnight:
  assumes "newDate fb tz start = Some (localMidnight tz a)"
    and "newDate fb tz end = Some (localMidnight tz b)" and "a \<le> b"
  shows "computeStats fb tz labours start end =
    Some \<lparr>dr = \<lparr>totalDays = b - a + 1, sundays = countDays (\<lambda>n. WeekDay n = 0) a b,
                 workingDays = b - a + 1 - countDays (\<lambda>n. WeekDay n = 0) a b\<rparr>,
          stats = map (\<lambda>lab.
            \<lparr>st_name = name lab,
             st_present = countDays (\<lambda>n. presentOn lab (n + utcShift tz)) a b,
             st_absent = countDays (\<lambda>n. \<not> presentOn lab (n + utcShift tz) \<and> WeekDay n \<noteq> 0) a b,
             st_late = countDays (\<lambda>n. lateOn lab (n + utcShift tz)) a b,
             st_workingDays = b - a + 1 - countDays (\<lambda>n. WeekDay n = 0) a b,
             st_sundays = countDays (\<lambda>n. WeekDay n = 0) a b\<rparr>) labours\<rparr>"
  using assms(3)
  by (simp add: computeStats_def dateRangeDays_midnight [OF assms(1,2)] assms(1,2)
      computeStats_loop_count countDays_def)

lemma computeStats_parsed:
  assumes "parseYMD start = Some a" and "parseYMD end = Some b" and "a \<le> b"
  shows "computeStats fb tz labours start end =
    Some \<lparr>dr = \<lparr>totalDays = b - a + 1, sundays = countDays (\<lambda>n. WeekDay n = 0) a b,
                 workingDays = b - a + 1 - countDays (\<lambda>n. WeekDay n = 0) a b\<rparr>,
          stats = map (\<lambda>lab.
            \<lparr>st_name = name lab,
             st_present = countDays (\<lambda>n. presentOn lab (n + utcShift tz)) a b,
             st_absent = countDays (\<lambda>n. \<not> presentOn lab (n + utcShift tz) \<and> WeekDay n \<noteq> 0) a b,
             st_late = countDays (\<lambda>n. lateOn lab (n + utcShift tz)) a b,
             st_workingDays = b - a + 1 - countDays (\<lambda>n. WeekDay n = 0) a b,
             st_sundays = countDays (\<lambda>n. WeekDay n = 0) a b\<rparr>) labours\<rparr>"
  by (rule computeStats_midnight) (simp_all add: newDate_parseYMD assms)



lemma dateRangeDays_Some:
  assumes "dateRangeDays fb tz start end = Some r"
  obtains s e tot sun where "newDate fb tz start = Some s" "newDate fb tz end = Some e" "s \<le> e"
    "dateRangeDays_loop tz s e 0 0 = (tot, sun)"
    "r = \<lparr>totalDays = tot, sundays = sun, workingDays = tot - sun\<rparr>"
  using assms
  by (cases "newDate fb tz start"; cases "newDate fb tz end")
     (auto simp: dateRangeDays_def split: prod.splits if_splits)

subsection \<open>Counting days\<close>

lemma countDays_mono:
  assumes "\<And>n. P n \<Longrightarrow> Q n"
  shows "countDays P a b \<le> countDays Q a b"
proof -
  have "length (filter P xs) \<le> length (filter Q xs)" for xs :: "int list"
    using assms by (induction xs) auto
  then show ?thesis
    by (simp add: countDays_def)
qed

lemma countDays_compl:
  assumes "a \<le> b"
  shows "countDays P a b + countDays (\<lambda>n. \<not> P n) a b = b - a + 1"
proof -
  have "int (length (filter P [a..b])) + int (length (filter (\<lambda>n. \<not> P n) [a..b]))
      = int (length [a..b])"
    by (simp only: of_nat_add [symmetric] sum_length_filter_compl)
  also have "\<dots> = b - a + 1"
    using assms by simp
  finally show ?thesis
    by (simp only: countDays_def)
qed

lemma countDays_nonneg: "0 \<le> countDays P a b"
  by (simp add: countDays_def)

lemma countDays_False: "(\<And>n. a \<le> n \<Longrightarrow> n \<le> b \<Longrightarrow> \<not> P n) \<Longrightarrow> countDays P a b = 0"
  by (auto simp: countDays_def filter_empty_conv)

lemma countDays_cong:
  assumes "\<And>n. a \<le> n \<Longrightarrow> n \<le> b \<Longrightarrow> P n = Q n"
  shows "countDays P a b = countDays Q a b"
proof -
  have "filter P [a..b] = filter Q [a..b]"
    by (rule filter_cong) (auto simp: assms)
  then show ?thesis
    by (simp only: countDays_def)
qed

subsection \<open>The week of the scenarios\<close>

lemma week_keys:
  "dateKey 19723 = ''2024-01-01''" "dateKey 19724 = ''2024-01-02''"
  "dateKey 19725 = ''2024-01-03''" "dateKey 19726 = ''2024-01-04''"
  "dateKey 19727 = ''2024-01-05''" "dateKey 19728 = ''2024-01-06''"
  "dateKey 19729 = ''2024-01-07''"
  by (simp_all add: date_eval)

lemma week_parse:
  "parseYMD ''2024-01-01'' = Some 19723" "parseYMD ''2024-01-03'' = Some 19725"
  "parseYMD ''2024-01-05'' = Some 19727" "parseYMD ''2024-01-07'' = Some 19729"
  by (simp_all add: parse_eval)

subsection \<open>Invalid ranges\<close>

lemma computeStats_Some:
  assumes "computeStats fb tz labours start end = Some res"
  obtains s e tot sun where "newDate fb tz start = Some s" "newDate fb tz end = Some e" "s \<le> e"
    "dateRangeDays_loop tz s e 0 0 = (tot, sun)"
    "dr res = \<lparr>totalDays = tot, sundays = sun, workingDays = tot - sun\<rparr>"
    "stats res = map (\<lambda>lab.
       (case computeStats_loop tz (records lab) s e (0, 0, 0) of
          (present, absent, late) \<Rightarrow>
            \<lparr>st_name = name lab, st_present = present, st_absent = absent,
             st_late = late, st_workingDays = tot - sun, st_sundays = sun\<rparr>)) labours"
proof -
  from assms obtain r where r: "dateRangeDays fb tz start end = Some r"
    and res: "res = \<lparr>dr = r,
                stats = map (\<lambda>lab.
                  (case computeStats_loop tz (records lab) (the (newDate fb tz start))
                          (the (newDate fb tz end)) (0, 0, 0) of
                     (present, absent, late) \<Rightarrow>
                       \<lparr>st_name = name lab, st_present = present, st_absent = absent,
                        st_late = late, st_workingDays = workingDays r,
                        st_sundays = sundays r\<rparr>)) labours\<rparr>"
    by (auto simp: computeStats_def split: option.splits)
  from r obtain s e tot sun where
    d: "newDate fb tz start = Some s" "newDate fb tz end = Some e" "s \<le> e"
      "dateRangeDays_loop tz s e 0 0 = (tot, sun)"
      "r = \<lparr>totalDays = tot, sundays = sun, workingDays = tot - sun\<rparr>"
    by (rule dateRangeDays_Some)
  show ?thesis
    by (rule that [OF d(1-4)]) (simp_all add: res d)
qed








subsection \<open>The counts of a worker\<close>




text \<open>
  C4. A worker with no record for any day of the range should have no present and no late
  day, and as many absent days as the range has working days. This does not hold where
  the local time is ahead of UTC. At UTC+05:30 local midnight of 2024-01-05 is
  2024-01-04T18:30Z, and the source looks the day up under the key \<^verbatim>\<open>2024-01-04\<close>. Asha
  has no record for 2024-01-05, the only day of the range, which is a Friday; the source
  counts one present and one late day for Asha, and no absent day.
\<close>

theorem computeStats_day_before:
  "computeStats noFallback 330 [asha] ''2024-01-05'' ''2024-01-05'' =
       Some \<lparr>dr = \<lparr>totalDays = 1, sundays = 0, workingDays = 1\<rparr>,
             stats = [\<lparr>st_name = ''Asha'', st_present = 1, st_absent = 0, st_late = 1,
                       st_workingDays = 1, st_sundays = 0\<rparr>]\<rparr>
   \<and> parseYMD ''2024-01-05'' = Some 19727
   \<and> records asha (dateKey 19727) = None"
proof -
  have c: "countDays (\<lambda>n. WeekDay n = 0) 19727 19727 = 0"
    "countDays (\<lambda>n. presentOn asha (n + utcShift 330)) 19727 19727 = 1"
    "countDays (\<lambda>n. \<not> presentOn asha (n + utcShift 330) \<and> WeekDay n \<noteq> 0) 19727 19727 = 0"
    "countDays (\<lambda>n. lateOn asha (n + utcShift 330)) 19727 19727 = 1"
    "records asha (dateKey 19727) = None"
    "name asha = ''Asha''"
    by (simp_all add: count_eval week_keys asha_def utcShift_def)
  show ?thesis
    using computeStats_parsed [OF week_parse(3) week_parse(3), of noFallback 330 "[asha]"]
    by (simp add: c week_parse)
qed

text \<open>
  In general, where the local time is ahead of UTC (by up to 24 hours), each day of the
  range is counted by the record of the day before it.
\<close>

lemma computeStats_east:
  assumes "parseYMD start = Some a" and "parseYMD end = Some b" and "a \<le> b"
    and "0 < tz" and "tz \<le> 1440"
  shows "computeStats fb tz labours start end =
    Some \<lparr>dr = \<lparr>totalDays = b - a + 1, sundays = countDays (\<lambda>n. WeekDay n = 0) a b,
                 workingDays = b - a + 1 - countDays (\<lambda>n. WeekDay n = 0) a b\<rparr>,
          stats = map (\<lambda>lab.
            \<lparr>st_name = name lab,
             st_present = countDays (\<lambda>n. presentOn lab (n - 1)) a b,
             st_absent = countDays (\<lambda>n. \<not> presentOn lab (n - 1) \<and> WeekDay n \<noteq> 0) a b,
             st_late = countDays (\<lambda>n. lateOn lab (n - 1)) a b,
             st_workingDays = b - a + 1 - countDays (\<lambda>n. WeekDay n = 0) a b,
             st_sundays = countDays (\<lambda>n. WeekDay n = 0) a b\<rparr>) labours\<rparr>"
  using assms(4,5) computeStats_parsed [OF assms(1-3), of fb tz labours]
  by (simp add: utcShift_east)

text \<open>
  What C4 says does hold where the local time is at or behind UTC, and for a worker
  with no records at all in every time zone; and no absence is counted on a Sunday in
  any time zone.
\<close>

lemma computeStats_no_records:
  assumes "parseYMD start = Some a" and "parseYMD end = Some b" and "a \<le> b"
    and "- 1440 < tz" and "tz \<le> 0"
    and "i < length labours"
    and none: "\<And>n. a \<le> n \<Longrightarrow> n \<le> b \<Longrightarrow> records (labours ! i) (dateKey n) = None"
  shows "\<exists>res. computeStats fb tz labours start end = Some res
           \<and> st_present (stats res ! i) = 0 \<and> st_late (stats res ! i) = 0
           \<and> st_absent (stats res ! i) = workingDays (dr res)"
proof -
  let ?lab = "labours ! i"
  have p: "countDays (\<lambda>n. presentOn ?lab (n + utcShift tz)) a b = 0"
    using assms(4,5) by (intro countDays_False) (simp add: utcShift_west presentOn_def none)
  have l: "countDays (\<lambda>n. lateOn ?lab (n + utcShift tz)) a b = 0"
    using assms(4,5) by (intro countDays_False) (simp add: utcShift_west lateOn_def none)
  have "countDays (\<lambda>n. \<not> presentOn ?lab (n + utcShift tz) \<and> WeekDay n \<noteq> 0) a b =
      countDays (\<lambda>n. \<not> WeekDay n = 0) a b"
    using assms(4,5) by (intro countDays_cong) (simp add: utcShift_west presentOn_def none)
  then have ab: "countDays (\<lambda>n. \<not> presentOn ?lab (n + utcShift tz) \<and> WeekDay n \<noteq> 0) a b =
      b - a + 1 - countDays (\<lambda>n. WeekDay n = 0) a b"
    using countDays_compl [OF assms(3), of "\<lambda>n. WeekDay n = 0"] by linarith
  show ?thesis
    using computeStats_parsed [OF assms(1-3), of fb tz labours] assms(6)
    by (simp add: p l ab)
qed

lemma loops_empty_records:
  "computeStats_loop tz Map.empty cur e (p, ab, l) = (p', ab', l') \<Longrightarrow>
   dateRangeDays_loop tz cur e tot sun = (tot', sun') \<Longrightarrow>
   p' = p \<and> l' = l \<and> ab' - ab = (tot' - tot) - (sun' - sun)"
proof (induction tz cur e tot sun arbitrary: p ab l rule: dateRangeDays_loop.induct)
  case (1 tz cur e tot sun)
  show ?case
  proof (cases "cur \<le> e")
    case True
    let ?ab = "if getDay tz cur \<noteq> 0 then ab + 1 else ab"
    have b: "computeStats_body tz Map.empty cur (p, ab, l) = (p, ?ab, l)"
      by (simp add: computeStats_body_def)
    from "1.prems"(1) True have c: "computeStats_loop tz Map.empty (setDateNext cur) e (p, ?ab, l)
        = (p', ab', l')"
      by (subst (asm) computeStats_loop.simps) (simp add: b)
    from "1.prems"(2) True have d: "dateRangeDays_loop tz (setDateNext cur) e (tot + 1)
        (if getDay tz cur = 0 then sun + 1 else sun) = (tot', sun')"
      by (subst (asm) dateRangeDays_loop.simps) simp
    from "1.IH" [OF True c d] show ?thesis
      by (auto split: if_splits)
  next
    case False
    with "1.prems" show ?thesis
      by (subst (asm) computeStats_loop.simps, subst (asm) dateRangeDays_loop.simps) simp
  qed
qed

lemma computeStats_empty_records:
  assumes "computeStats fb tz labours start end = Some res"
    and "i < length labours" and "records (labours ! i) = Map.empty"
  shows "st_present (stats res ! i) = 0 \<and> st_late (stats res ! i) = 0
         \<and> st_absent (stats res ! i) = workingDays (dr res)"
proof -
  from assms(1) obtain s e tot sun where
    d: "dateRangeDays_loop tz s e 0 0 = (tot, sun)"
      "dr res = \<lparr>totalDays = tot, sundays = sun, workingDays = tot - sun\<rparr>"
    and st: "stats res = map (\<lambda>lab.
       (case computeStats_loop tz (records lab) s e (0, 0, 0) of
          (present, absent, late) \<Rightarrow>
            \<lparr>st_name = name lab, st_present = present, st_absent = absent,
             st_late = late, st_workingDays = tot - sun, st_sundays = sun\<rparr>)) labours"
    by (rule computeStats_Some)
  obtain p ab l where c: "computeStats_loop tz Map.empty s e (0, 0, 0) = (p, ab, l)"
    by (cases "computeStats_loop tz Map.empty s e (0, 0, 0)")
  from loops_empty_records [OF c d(1)] show ?thesis
    using assms(2,3) by (simp add: st d(2) c)
qed

lemma computeStats_only_sundays:
  assumes "computeStats fb tz labours start end = Some res"
    and "parseYMD start = Some a" and "parseYMD end = Some b"
    and sun: "\<And>n. a \<le> n \<Longrightarrow> n \<le> b \<Longrightarrow> WeekDay n = 0"
    and "st \<in> set (stats res)"
  shows "st_absent st = 0"
proof -
  have ab: "a \<le> b"
    using assms(1) dateRangeDays_parsed [OF assms(2,3), of fb tz]
    by (auto simp: computeStats_def split: if_splits)
  have "countDays (\<lambda>n. \<not> presentOn lab (n + utcShift tz) \<and> WeekDay n \<noteq> 0) a b = 0" for lab
    by (intro countDays_False) (simp add: sun)
  then show ?thesis
    using computeStats_parsed [OF assms(2,3) ab, of fb tz labours] assms(1,5)
    by auto
qed

text \<open>
  One turn of the two loops: a day counted late is counted present, a day counted absent
  is no Sunday, and no day is counted both present and absent.
\<close>

lemma loops_bounds:
  "computeStats_loop tz recs cur e (p, ab, l) = (p', ab', l') \<Longrightarrow>
   dateRangeDays_loop tz cur e tot sun = (tot', sun') \<Longrightarrow>
   l \<le> l' \<and> l' - l \<le> p' - p \<and> ab \<le> ab' \<and> ab' - ab \<le> (tot' - tot) - (sun' - sun)
   \<and> (p' - p) + (ab' - ab) \<le> tot' - tot"
proof (induction tz cur e tot sun arbitrary: p ab l rule: dateRangeDays_loop.induct)
  case (1 tz cur e tot sun)
  show ?case
  proof (cases "cur \<le> e")
    case True
    obtain p1 ab1 l1 where b: "computeStats_body tz recs cur (p, ab, l) = (p1, ab1, l1)"
      by (cases "computeStats_body tz recs cur (p, ab, l)")
    let ?sun = "if getDay tz cur = 0 then sun + 1 else sun"
    from b have step: "l \<le> l1" "l1 - l \<le> p1 - p" "ab \<le> ab1" "ab1 - ab \<le> 1 - (?sun - sun)"
      "(p1 - p) + (ab1 - ab) \<le> 1"
      by (auto simp: computeStats_body_def Let_def split: if_splits)
    from "1.prems"(1) True have c: "computeStats_loop tz recs (setDateNext cur) e (p1, ab1, l1)
        = (p', ab', l')"
      by (subst (asm) computeStats_loop.simps) (simp add: b)
    from "1.prems"(2) True have d: "dateRangeDays_loop tz (setDateNext cur) e (tot + 1) ?sun
        = (tot', sun')"
      by (subst (asm) dateRangeDays_loop.simps) simp
    from "1.IH" [OF True c d] step show ?thesis
      by linarith
  next
    case False
    with "1.prems" show ?thesis
      by (subst (asm) computeStats_loop.simps, subst (asm) dateRangeDays_loop.simps) simp
  qed
qed

text \<open>
  C10. In every result of \<^verbatim>\<open>computeStats\<close>, in every time zone, each entry has
  \<open>st_late \<le> st_present\<close>, \<open>st_absent \<le> st_workingDays\<close>, which is the \<open>workingDays\<close> of
  the range, and \<open>st_present + st_absent \<le> totalDays\<close>; no count is negative.
\<close>

theorem computeStats_bounds:
  assumes "computeStats fb tz labours start end = Some res" and "st \<in> set (stats res)"
  shows "0 \<le> st_late st \<and> st_late st \<le> st_present st
         \<and> 0 \<le> st_absent st \<and> st_absent st \<le> st_workingDays st
         \<and> st_workingDays st = workingDays (dr res)
         \<and> st_present st + st_absent st \<le> totalDays (dr res)"
proof -
  from assms(1) obtain s e tot sun where
    d: "dateRangeDays_loop tz s e 0 0 = (tot, sun)"
    and res: "dr res = \<lparr>totalDays = tot, sundays = sun, workingDays = tot - sun\<rparr>"
    and stats: "stats res = map (\<lambda>lab.
       (case computeStats_loop tz (records lab) s e (0, 0, 0) of
          (present, absent, late) \<Rightarrow>
            \<lparr>st_name = name lab, st_present = present, st_absent = absent,
             st_late = late, st_workingDays = tot - sun, st_sundays = sun\<rparr>)) labours"
    by (rule computeStats_Some)
  define entry where "entry = (\<lambda>lab :: labour.
       (case computeStats_loop tz (records lab) s e (0, 0, 0) of
          (present, absent, late) \<Rightarrow>
            \<lparr>st_name = name lab, st_present = present, st_absent = absent,
             st_late = late, st_workingDays = tot - sun, st_sundays = sun\<rparr>))"
  from assms(2) stats have "st \<in> entry ` set labours"
    by (simp add: entry_def)
  then obtain lab where st: "st = entry lab"
    by blast
  obtain p ab l where c: "computeStats_loop tz (records lab) s e (0, 0, 0) = (p, ab, l)"
    by (cases "computeStats_loop tz (records lab) s e (0, 0, 0)")
  from loops_bounds [OF c d] show ?thesis
    by (simp add: st entry_def c res)
qed

theorem computeStats_bounds_witness:
  "\<exists>res. computeStats noFallback 330 [asha] ''2024-01-01'' ''2024-01-07'' = Some res
     \<and> stats res \<noteq> []
     \<and> (let st = hd (stats res) in
          st_late st \<le> st_present st \<and> st_absent st \<le> st_workingDays st
          \<and> st_present st + st_absent st \<le> totalDays (dr res))"
proof -
  from computeStats_parsed [OF week_parse(1) week_parse(4), of noFallback 330 "[asha]"]
  obtain res where res: "computeStats noFallback 330 [asha] ''2024-01-01'' ''2024-01-07'' = Some res"
    and st: "stats res \<noteq> []"
    by simp
  then have "hd (stats res) \<in> set (stats res)"
    by simp
  from computeStats_bounds [OF res this] res st show ?thesis
    by (auto simp: Let_def)
qed

section \<open>The operations on the roster\<close>

lemma inBounds_nat: "inBounds labours index \<Longrightarrow> nat index < length labours"
  by (simp add: inBounds_def nat_less_iff)

lemma inBounds_update: "inBounds (labours[k := l]) index = inBounds labours index"
  by (simp add: inBounds_def)

text \<open>An index out of bounds: the handler throws, and the roster stays as it was.\<close>

lemma out_of_bounds:
  assumes "\<not> inBounds labours index"
  shows "togglePresent labours date index = Inl IndexError"
    and "changeTime labours date index newTime = Inl IndexError"
    and "removeLabour confirmed labours index = Inl IndexError"
    and "rosterAfter labours (Inl IndexError) = labours"
  using assms by (simp_all add: togglePresent_def changeTime_def removeLabour_def rosterAfter_def)

subsection \<open>\<^verbatim>\<open>addLabour\<close>\<close>

lemma stripStart_None:
  "find (\<lambda>w. w \<noteq> [] \<and> take (length w) s = w) ws = None \<Longrightarrow> stripStart ws s = s"
  by (subst stripStart.simps) simp

lemma stripStart_Some:
  "find (\<lambda>w. w \<noteq> [] \<and> take (length w) s = w) ws = Some w \<Longrightarrow>
     stripStart ws s = stripStart ws (drop (length w) s)"
  by (subst stripStart.simps) simp

text \<open>
  \<open>trim\<close> gives a part of the string, with no white space at its start or at its end.
\<close>

lemma stripStart_suffix: "\<exists>p. s = p @ stripStart ws s"
proof (induction ws s rule: stripStart.induct)
  case (1 ws s)
  show ?case
  proof (cases "find (\<lambda>w. w \<noteq> [] \<and> take (length w) s = w) ws")
    case None
    then show ?thesis
      by (simp add: stripStart_None)
  next
    case (Some w)
    from "1.IH" [OF Some] obtain p where "drop (length w) s = p @ stripStart ws (drop (length w) s)"
      by blast
    then have "s = (take (length w) s @ p) @ stripStart ws (drop (length w) s)"
      by (metis append_assoc append_take_drop_id)
    then show ?thesis
      unfolding stripStart_Some [OF Some] by blast
  qed
qed

lemma stripStart_clean:
  "find (\<lambda>w. w \<noteq> [] \<and> take (length w) (stripStart ws s) = w) ws = None"
proof (induction ws s rule: stripStart.induct)
  case (1 ws s)
  show ?case
  proof (cases "find (\<lambda>w. w \<noteq> [] \<and> take (length w) s = w) ws")
    case None
    then show ?thesis
      by (simp add: stripStart_None)
  next
    case (Some w)
    from "1.IH" [OF Some] show ?thesis
      by (simp add: stripStart_Some [OF Some])
  qed
qed

lemma stripStart_no_prefix:
  assumes "w \<in> set ws" and "w \<noteq> []"
  shows "take (length w) (stripStart ws s) \<noteq> w"
  using stripStart_clean [of ws s] assms by (auto simp: find_None_iff)

lemma trim_within: "\<exists>p q. s = p @ trim s @ q"
proof -
  obtain p where p: "s = p @ stripStart whiteSpace s"
    using stripStart_suffix by blast
  obtain r where "rev (stripStart whiteSpace s) = r @ rev (trim s)"
    using stripStart_suffix [of "rev (stripStart whiteSpace s)" "map rev whiteSpace"]
    by (auto simp: trim_def)
  then have "stripStart whiteSpace s = trim s @ rev r"
    by (metis rev_append rev_rev_ident)
  with p show ?thesis
    by metis
qed

lemma trim_no_trailing:
  assumes "w \<in> set whiteSpace"
  shows "\<not> (\<exists>p. trim s = p @ w)"
proof
  assume "\<exists>p. trim s = p @ w"
  then obtain p where "trim s = p @ w" ..
  then have "rev (trim s) = rev w @ rev p"
    by simp
  then have "take (length (rev w)) (stripStart (map rev whiteSpace) (rev (stripStart whiteSpace s)))
      = rev w"
    by (simp add: trim_def)
  moreover have "rev w \<in> set (map rev whiteSpace)" "rev w \<noteq> []"
    using assms by (auto simp: whiteSpace_def)
  ultimately show False
    using stripStart_no_prefix by blast
qed

lemma trim_no_leading:
  assumes "w \<in> set whiteSpace"
  shows "\<not> (\<exists>q. trim s = w @ q)"
proof
  assume "\<exists>q. trim s = w @ q"
  then obtain q where q: "trim s = w @ q" ..
  obtain r where "rev (stripStart whiteSpace s) = r @ rev (trim s)"
    using stripStart_suffix [of "rev (stripStart whiteSpace s)" "map rev whiteSpace"]
    by (auto simp: trim_def)
  then have "stripStart whiteSpace s = trim s @ rev r"
    by (metis rev_append rev_rev_ident)
  with q have "take (length w) (stripStart whiteSpace s) = w"
    by simp
  moreover have "w \<noteq> []"
    using assms by (auto simp: whiteSpace_def)
  ultimately show False
    using stripStart_no_prefix [OF assms] by blast
qed

lemma trim_eval:
  "trim '' Asha  '' = ''Asha''" "trim ''  '' = []" "trim ''Meena'' = ''Meena''"
  by (simp_all add: trim_def whiteSpace_def stripStart.simps [of _ "c # cs" for c cs]
      stripStart.simps [of _ "[]"])

text \<open>
  C6. \<^verbatim>\<open>addLabour\<close> trims the name. For an empty trimmed name it returns and the roster
  is unchanged (\<open>EmptyName\<close>); for a trimmed name that is the name of a worker of the
  roster it alerts and the roster is unchanged (\<open>DuplicateName\<close>); otherwise the new
  roster is the old one, in its order, followed by a worker of that name with no
  records. The source tests for the empty name first; the two cases meet only in a roster
  with a worker of empty name, which the roster never holds (third part).
\<close>

theorem addLabour_cases:
  "(trim newName = [] \<longrightarrow>
      addLabour labours newName = Inl EmptyName
      \<and> rosterAfter labours (addLabour labours newName) = labours)
   \<and> (trim newName \<noteq> [] \<and> trim newName \<in> name ` set labours \<longrightarrow>
      addLabour labours newName = Inl DuplicateName
      \<and> rosterAfter labours (addLabour labours newName) = labours)
   \<and> ((\<forall>l \<in> set labours. name l \<noteq> []) \<and> trim newName \<in> name ` set labours \<longrightarrow>
      addLabour labours newName = Inl DuplicateName
      \<and> rosterAfter labours (addLabour labours newName) = labours)
   \<and> (trim newName \<noteq> [] \<and> trim newName \<notin> name ` set labours \<longrightarrow>
      addLabour labours newName = Inr (labours @ [\<lparr>name = trim newName, records = Map.empty\<rparr>])
      \<and> rosterAfter labours (addLabour labours newName) =
          labours @ [\<lparr>name = trim newName, records = Map.empty\<rparr>])"
proof -
  have dup: "list_ex (\<lambda>l. name l = trim newName) labours \<longleftrightarrow> trim newName \<in> name ` set labours"
    unfolding list_ex_iff image_iff by (rule bex_cong [OF refl]) (rule eq_commute)
  have ne: "(\<forall>l \<in> set labours. name l \<noteq> []) \<Longrightarrow> trim newName \<in> name ` set labours
      \<Longrightarrow> trim newName \<noteq> []"
    by auto
  show ?thesis
    using ne by (auto simp: addLabour_def rosterAfter_def dup Let_def)
qed

theorem addLabour_cases_witness:
  "trim ''  '' = [] \<and> addLabour [asha] ''  '' = Inl EmptyName
   \<and> trim '' Asha  '' \<in> name ` set [asha] \<and> addLabour [asha] '' Asha  '' = Inl DuplicateName
   \<and> rosterAfter [asha] (addLabour [asha] '' Asha  '') = [asha]
   \<and> trim ''Meena'' \<notin> name ` set [asha]
   \<and> addLabour [asha] ''Meena'' = Inr [asha, \<lparr>name = ''Meena'', records = Map.empty\<rparr>]"
proof -
  have n: "name asha = ''Asha''"
    by (simp add: asha_def)
  show ?thesis
    using addLabour_cases [of "''  ''" "[asha]"] addLabour_cases [of "'' Asha  ''" "[asha]"]
      addLabour_cases [of "''Meena''" "[asha]"]
    by (simp add: trim_eval n rosterAfter_def)
qed

subsection \<open>\<^verbatim>\<open>togglePresent\<close>\<close>

lemma togglePresent_in:
  assumes "inBounds labours index"
  shows "togglePresent labours date index =
     Inr (labours[nat index := (labours ! nat index)\<lparr>records :=
       (records (labours ! nat index))(date \<mapsto>
          \<lparr>status = (if statusOn (labours ! nat index) date = Present then Absent else Present),
           time = timeOn (labours ! nat index) date\<rparr>)\<rparr>])"
proof (cases "records (labours ! nat index) date")
  case None
  with assms show ?thesis
    by (simp add: togglePresent_def statusOn_def timeOn_def defaultRecord_def Let_def)
next
  case (Some r)
  with assms show ?thesis
    by (cases r) (simp add: togglePresent_def statusOn_def timeOn_def Let_def)
qed

text \<open>
  C5. For an index in bounds, \<^verbatim>\<open>togglePresent\<close> twice on the same date: the first call
  changes the status of the worker on that date, the second gives back the status the
  worker had (Absent where there was no record), and the arrival time is the one the
  worker had (\<^verbatim>\<open>09:00\<close> where there was no record). Nothing else of the roster changes:
  the roster after the two calls is the old one with that record written out.
\<close>

theorem togglePresent_twice:
  assumes "inBounds labours index"
  shows "\<exists>once twice.
      togglePresent labours date index = Inr once
      \<and> togglePresent once date index = Inr twice
      \<and> statusOn (once ! nat index) date \<noteq> statusOn (labours ! nat index) date
      \<and> statusOn (twice ! nat index) date = statusOn (labours ! nat index) date
      \<and> timeOn (twice ! nat index) date = timeOn (labours ! nat index) date
      \<and> twice = labours[nat index := (labours ! nat index)\<lparr>records :=
            (records (labours ! nat index))(date \<mapsto>
               \<lparr>status = statusOn (labours ! nat index) date,
                time = timeOn (labours ! nat index) date\<rparr>)\<rparr>]"
proof -
  let ?k = "nat index"
  let ?l = "labours ! ?k"
  let ?once = "labours[?k := ?l\<lparr>records := (records ?l)(date \<mapsto>
      \<lparr>status = (if statusOn ?l date = Present then Absent else Present),
       time = timeOn ?l date\<rparr>)\<rparr>]"
  have k: "?k < length labours"
    using assms by (rule inBounds_nat)
  have 1: "togglePresent labours date index = Inr ?once"
    using assms by (rule togglePresent_in)
  have b: "inBounds ?once index"
    using assms by (simp add: inBounds_update)
  have s1: "statusOn (?once ! ?k) date = (if statusOn ?l date = Present then Absent else Present)"
    and t1: "timeOn (?once ! ?k) date = timeOn ?l date"
    using k by (simp_all add: statusOn_def timeOn_def)
  have flip: "(if (if statusOn ?l date = Present then Absent else Present) = Present
               then Absent else Present) = statusOn ?l date"
    by (cases "statusOn ?l date") simp_all
  let ?twice = "labours[?k := ?l\<lparr>records := (records ?l)(date \<mapsto>
      \<lparr>status = statusOn ?l date, time = timeOn ?l date\<rparr>)\<rparr>]"
  have 2: "togglePresent ?once date index = Inr ?twice"
    unfolding togglePresent_in [OF b] s1 t1 flip using k by simp
  have s2: "statusOn (?twice ! ?k) date = statusOn ?l date"
    and t2: "timeOn (?twice ! ?k) date = timeOn ?l date"
    using k by (simp_all add: statusOn_def timeOn_def)
  have ne: "statusOn (?once ! ?k) date \<noteq> statusOn ?l date"
    unfolding s1 by (cases "statusOn ?l date") simp_all
  from 1 2 ne s2 t2 show ?thesis
    by blast
qed

theorem togglePresent_twice_witness:
  "inBounds [asha] 0
   \<and> (\<exists>once twice.
        togglePresent [asha] ''2024-01-03'' 0 = Inr once
        \<and> togglePresent once ''2024-01-03'' 0 = Inr twice
        \<and> statusOn (once ! 0) ''2024-01-03'' = Absent
        \<and> statusOn (twice ! 0) ''2024-01-03'' = Present
        \<and> timeOn (twice ! 0) ''2024-01-03'' = ''09:00'')"
proof -
  have b: "inBounds [asha] 0"
    by (simp add: inBounds_def)
  have s: "statusOn asha ''2024-01-03'' = Present" "timeOn asha ''2024-01-03'' = ''09:00''"
    by (simp_all add: statusOn_def timeOn_def asha_def)
  from togglePresent_twice [OF b, of "''2024-01-03''"] obtain once twice where
    t: "togglePresent [asha] ''2024-01-03'' 0 = Inr once"
      "togglePresent once ''2024-01-03'' 0 = Inr twice"
      "statusOn (once ! 0) ''2024-01-03'' \<noteq> statusOn asha ''2024-01-03''"
      "statusOn (twice ! 0) ''2024-01-03'' = statusOn asha ''2024-01-03''"
      "timeOn (twice ! 0) ''2024-01-03'' = timeOn asha ''2024-01-03''"
    by auto
  from t(3) have "statusOn (once ! 0) ''2024-01-03'' = Absent"
    unfolding s by (cases "statusOn (once ! 0) ''2024-01-03''") simp_all
  with t b show ?thesis
    unfolding s by blast
qed

subsection \<open>\<^verbatim>\<open>changeTime\<close>\<close>

text \<open>
  C8. For an index in bounds, \<^verbatim>\<open>changeTime\<close> gives a roster of the same length and names
  in which the record of that worker and date is: a record with status Absent and the new
  time, where there was none; the old record with only its time replaced, and so with its
  old status, where there was one. The records of that worker for other dates and the
  other workers are unchanged.
\<close>

theorem changeTime_frame:
  assumes "inBounds labours index"
  shows "\<exists>updated.
      changeTime labours date index newTime = Inr updated
      \<and> length updated = length labours
      \<and> map name updated = map name labours
      \<and> records (updated ! nat index) date =
          Some (case records (labours ! nat index) date of
                  None \<Rightarrow> \<lparr>status = Absent, time = newTime\<rparr>
                | Some r \<Rightarrow> r\<lparr>time := newTime\<rparr>)
      \<and> statusOn (updated ! nat index) date = statusOn (labours ! nat index) date
      \<and> (\<forall>d. d \<noteq> date \<longrightarrow> records (updated ! nat index) d = records (labours ! nat index) d)
      \<and> (\<forall>j < length labours. j \<noteq> nat index \<longrightarrow> updated ! j = labours ! j)"
proof -
  let ?k = "nat index"
  let ?l = "labours ! ?k"
  let ?r = "case records ?l date of None \<Rightarrow> defaultRecord | Some r \<Rightarrow> r"
  let ?u = "labours[?k := ?l\<lparr>records := (records ?l)(date \<mapsto> ?r\<lparr>time := newTime\<rparr>)\<rparr>]"
  have k: "?k < length labours"
    using assms by (rule inBounds_nat)
  have 1: "changeTime labours date index newTime = Inr ?u"
    using assms by (simp add: changeTime_def Let_def)
  have n: "map name ?u = map name labours"
    using k by (simp add: map_update list_update_same_conv)
  have r: "records (?u ! ?k) date =
      Some (case records ?l date of None \<Rightarrow> \<lparr>status = Absent, time = newTime\<rparr>
            | Some r \<Rightarrow> r\<lparr>time := newTime\<rparr>)"
    using k by (simp add: defaultRecord_def split: option.splits)
  have s: "statusOn (?u ! ?k) date = statusOn ?l date"
    using k by (simp add: statusOn_def defaultRecord_def split: option.splits)
  have d: "\<forall>d. d \<noteq> date \<longrightarrow> records (?u ! ?k) d = records ?l d"
    using k by simp
  have j: "\<forall>j < length labours. j \<noteq> ?k \<longrightarrow> ?u ! j = labours ! j"
    by simp
  from 1 n r s d j show ?thesis
    by (intro exI [of _ ?u]) simp
qed

theorem changeTime_frame_witness:
  "inBounds [asha, cleared] 1
   \<and> (\<exists>updated.
        changeTime [asha, cleared] ''2024-01-04'' 1 ''10:15'' = Inr updated
        \<and> records (updated ! 1) ''2024-01-04'' = Some \<lparr>status = Absent, time = ''10:15''\<rparr>
        \<and> records (updated ! 1) ''2024-01-03'' = records cleared ''2024-01-03''
        \<and> updated ! 0 = asha)"
proof -
  have b: "inBounds [asha, cleared] 1"
    by (simp add: inBounds_def)
  have r: "records cleared ''2024-01-04'' = None"
    by (simp add: cleared_def)
  from changeTime_frame [OF b, of "''2024-01-04''" "''10:15''"] obtain updated where
    u: "changeTime [asha, cleared] ''2024-01-04'' 1 ''10:15'' = Inr updated"
      "records (updated ! nat 1) ''2024-01-04'' =
         Some (case records ([asha, cleared] ! nat 1) ''2024-01-04'' of
                 None \<Rightarrow> \<lparr>status = Absent, time = ''10:15''\<rparr>
               | Some r \<Rightarrow> r\<lparr>time := ''10:15''\<rparr>)"
      "\<forall>d. d \<noteq> ''2024-01-04'' \<longrightarrow>
         records (updated ! nat 1) d = records ([asha, cleared] ! nat 1) d"
      "\<forall>j < length [asha, cleared]. j \<noteq> nat 1 \<longrightarrow> updated ! j = [asha, cleared] ! j"
    by blast
  from u(2) have 1: "records (updated ! 1) ''2024-01-04'' = Some \<lparr>status = Absent, time = ''10:15''\<rparr>"
    by (simp add: r)
  from u(3) have 2: "records (updated ! 1) ''2024-01-03'' = records cleared ''2024-01-03''"
    by simp
  from u(4) have 3: "updated ! 0 = asha"
    by simp
  from b u(1) 1 2 3 show ?thesis
    by blast
qed

subsection \<open>\<^verbatim>\<open>removeLabour\<close>\<close>

lemma filter_enumerate_above:
  "m < n \<Longrightarrow> map snd (filter (\<lambda>(i, l). i \<noteq> m) (enumerate n xs)) = xs"
  by (induction xs arbitrary: n) auto

lemma filter_enumerate_neq:
  "k < length xs \<Longrightarrow>
     map snd (filter (\<lambda>(i, l). i \<noteq> n + k) (enumerate n xs)) = take k xs @ drop (Suc k) xs"
proof (induction xs arbitrary: n k)
  case Nil
  then show ?case by simp
next
  case (Cons x xs)
  show ?case
  proof (cases k)
    case 0
    then show ?thesis
      using filter_enumerate_above [of n "Suc n" xs] by simp
  next
    case (Suc k')
    with Cons.prems have "k' < length xs"
      by simp
    from Cons.IH [OF this, of "Suc n"] Suc show ?thesis
      by simp
  qed
qed

lemma removeLabour_confirmed:
  assumes "inBounds labours index"
  shows "removeLabour True labours index =
           Inr (take (nat index) labours @ drop (Suc (nat index)) labours)"
proof -
  from assms have k: "nat index < length labours" and i: "index = int (nat index)"
    by (simp_all add: inBounds_def nat_less_iff)
  have "(\<lambda>(i, l :: labour). int i \<noteq> index) = (\<lambda>(i, l). i \<noteq> 0 + nat index)"
    using i by (auto simp: fun_eq_iff)
  then show ?thesis
    using assms filter_enumerate_neq [OF k, of 0] by (simp add: removeLabour_def)
qed

text \<open>
  When the user declines the dialog, nothing is removed. The dialog belongs to the user
  interface; the operation of the specification is \<^verbatim>\<open>removeLabour\<close> with the answer yes.
\<close>

lemma removeLabour_declined:
  assumes "inBounds labours index"
  shows "removeLabour False labours index = Inl NotConfirmed"
    and "rosterAfter labours (removeLabour False labours index) = labours"
  using assms by (simp_all add: removeLabour_def rosterAfter_def)

text \<open>
  C7. For every roster and every index: for an index out of bounds \<^verbatim>\<open>removeLabour\<close> fails
  with \<open>IndexError\<close> (it throws on reading \<^verbatim>\<open>labours[index].name\<close>, before the dialog),
  and the roster is unchanged, in length and in content. For an index in bounds the new
  roster is the old one without the entry at that index: the entries before it and the
  entries after it, in their order, so that it is shorter by one.
\<close>

theorem removeLabour_cases:
  "(\<not> inBounds labours index \<longrightarrow>
      removeLabour confirmed labours index = Inl IndexError
      \<and> rosterAfter labours (removeLabour confirmed labours index) = labours)
   \<and> (inBounds labours index \<longrightarrow>
      removeLabour True labours index =
        Inr (take (nat index) labours @ drop (Suc (nat index)) labours)
      \<and> length (rosterAfter labours (removeLabour True labours index)) + 1 = length labours
      \<and> (\<forall>j < nat index. rosterAfter labours (removeLabour True labours index) ! j = labours ! j)
      \<and> (\<forall>j. nat index \<le> j \<and> j + 1 < length labours \<longrightarrow>
            rosterAfter labours (removeLabour True labours index) ! j = labours ! (j + 1)))"
proof (cases "inBounds labours index")
  case True
  then have k: "nat index < length labours"
    by (rule inBounds_nat)
  let ?r = "take (nat index) labours @ drop (Suc (nat index)) labours"
  have r: "removeLabour True labours index = Inr ?r"
    using True by (rule removeLabour_confirmed)
  have a: "rosterAfter labours (Inr ?r) = ?r"
    by (simp add: rosterAfter_def)
  have l: "length ?r + 1 = length labours"
    using k by simp
  have b: "?r ! j = labours ! j" if "j < nat index" for j
    using that k by (simp add: nth_append)
  have c: "?r ! j = labours ! (j + 1)" if "nat index \<le> j" "j + 1 < length labours" for j
    using that k by (simp add: nth_append min_def)
  from True r l b c show ?thesis
    by (simp only: a) simp
next
  case False
  then show ?thesis
    by (simp add: removeLabour_def rosterAfter_def)
qed

theorem removeLabour_cases_witness:
  "inBounds [asha, cleared] 1 \<and> \<not> inBounds [asha, cleared] 2 \<and> \<not> inBounds [asha, cleared] (- 1)
   \<and> removeLabour True [asha, cleared] 1 = Inr [asha]
   \<and> removeLabour True [asha, cleared] 0 = Inr [cleared]
   \<and> removeLabour True [asha, cleared] 2 = Inl IndexError
   \<and> rosterAfter [asha, cleared] (removeLabour True [asha, cleared] (- 1)) = [asha, cleared]"
proof -
  have b: "inBounds [asha, cleared] 1" "inBounds [asha, cleared] 0" "\<not> inBounds [asha, cleared] 2"
    "\<not> inBounds [asha, cleared] (- 1)"
    by (simp_all add: inBounds_def)
  show ?thesis
    using removeLabour_cases [of "[asha, cleared]" 1 True]
      removeLabour_cases [of "[asha, cleared]" 0 True]
      removeLabour_cases [of "[asha, cleared]" 2 True]
      removeLabour_cases [of "[asha, cleared]" "- 1" True] b
    by (simp add: rosterAfter_def)
qed

section \<open>The report\<close>

text \<open>
  \<^verbatim>\<open>stats.forEach\<close> appends the row of each entry at the height \<^verbatim>\<open>y\<close>, then moves \<^verbatim>\<open>y\<close> on
  by 8, or to 20 on a new page where that would pass 280.
\<close>

lemma forEach_body_step:
  "forEach_body s (doc, y) =
     (doc @ rowTexts s y @ (if 280 < y + 8 then [AddPage] else []), nextY y)"
  by (simp add: forEach_body_def nextY_def Let_def)

lemma fold_forEach_body:
  "fold forEach_body ss (doc, y) =
     (doc @ concat (map (\<lambda>k. rowTexts (ss ! k) ((nextY ^^ k) y)
                              @ (if 280 < (nextY ^^ k) y + 8 then [AddPage] else []))
                        [0..<length ss]),
      (nextY ^^ length ss) y)"
proof (induction ss arbitrary: doc y)
  case Nil
  show ?case by simp
next
  case (Cons s ss)
  have up: "[0..<length (s # ss)] = 0 # map Suc [0..<length ss]"
    by (simp add: upt_conv_Cons map_Suc_upt del: upt_Suc)
  show ?case
    unfolding up
    by (simp add: forEach_body_step Cons.IH funpow_swap1 comp_def del: upt_Suc)
qed

lemma rowY_0: "rowY 0 = 48"
  by (simp add: rowY_def)

lemma rowY_Suc: "rowY (Suc k) = nextY (rowY k)"
proof -
  consider "k < 29" | "k = 29" | "30 \<le> k" "(k - 30) mod 33 = 32" | "30 \<le> k" "(k - 30) mod 33 < 32"
  proof -
    have "(k - 30) mod 33 < 33"
      by simp
    then have "(k - 30) mod 33 = 32 \<or> (k - 30) mod 33 < 32"
      by linarith
    moreover have "k < 29 \<or> k = 29 \<or> 30 \<le> k"
      by linarith
    ultimately show ?thesis
      using that by blast
  qed
  then show ?thesis
  proof cases
    case 1
    then show ?thesis
      by (simp add: rowY_def nextY_def)
  next
    case 2
    then show ?thesis
      by (simp add: rowY_def nextY_def)
  next
    case 3
    then have "Suc k - 30 = Suc (k - 30)"
      by simp
    with 3 show ?thesis
      by (simp add: rowY_def nextY_def mod_Suc)
  next
    case 4
    then have "Suc k - 30 = Suc (k - 30)"
      by simp
    with 4 show ?thesis
      by (simp add: rowY_def nextY_def mod_Suc)
  qed
qed

lemma funpow_nextY: "(nextY ^^ k) 48 = rowY k"
  by (induction k) (simp_all add: rowY_0 rowY_Suc)

lemma rowY_bounds: "20 \<le> rowY k \<and> rowY k \<le> 280 \<and> rowY k \<noteq> startY"
proof (cases "k < 30")
  case True
  then show ?thesis
    by (simp add: rowY_def startY_def)
next
  case False
  have "(k - 30) mod 33 < 33"
    by simp
  then have "int ((k - 30) mod 33) \<le> 32"
    by linarith
  moreover have "8 * int ((k - 30) mod 33) \<noteq> 20"
  proof
    assume "8 * int ((k - 30) mod 33) = 20"
    then have "(8 * int ((k - 30) mod 33)) mod 8 = 20 mod 8"
      by (simp only:)
    then show False
      by simp
  qed
  ultimately show ?thesis
    using False by (simp add: rowY_def startY_def)
qed

lemma rowY_examples:
  "rowY 29 = 280" "rowY 30 = 20" "rowY 62 = 276" "rowY 63 = 20"
  by (simp_all add: rowY_def)

lemma renderReport_rows:
  "renderReport start end res =
     titleLines start end (dr res) @ headerRow @ pageRows (stats res)
     @ [Save (''attendance_'' @ start @ ''_to_'' @ end @ ''.pdf'')]"
  by (simp add: renderReport_def startY_def fold_forEach_body funpow_nextY pageRows_def)

lemma pageRows_elem:
  assumes "i \<in> set (pageRows ss)"
  shows "i = AddPage \<or> (\<exists>str x k. i = Text str x (rowY k))"
  using assms by (auto simp: pageRows_def rowTexts_def split: if_splits)

lemma header_not_in_rows:
  assumes "h \<in> set headerRow" and "h \<noteq> SetFontSize 10"
  shows "h \<notin> set (pageRows ss)"
proof
  assume "h \<in> set (pageRows ss)"
  then consider "h = AddPage" | str x k where "h = Text str x (rowY k)"
    using pageRows_elem by blast
  then show False
  proof cases
    case 1
    with assms(1) show False
      by (simp add: headerRow_def)
  next
    case 2
    with assms have "rowY k = startY"
      by (auto simp: headerRow_def)
    with rowY_bounds [of k] show False
      by simp
  qed
qed

lemma header_once:
  assumes "h \<in> set headerRow" and "h \<noteq> SetFontSize 10"
  shows "count_list (renderReport start end res) h = 1"
proof -
  have t: "count_list (titleLines start end (dr res)) h = 0"
    using assms by (auto simp: titleLines_def headerRow_def startY_def)
  have hd: "count_list headerRow h = 1"
    using assms by (auto simp: headerRow_def colX_def)
  have r: "count_list (pageRows (stats res)) h = 0"
    using header_not_in_rows [OF assms] by (simp add: count_list_0_iff)
  have s: "count_list [Save (''attendance_'' @ start @ ''_to_'' @ end @ ''.pdf'')] h = 0"
    using assms by (auto simp: headerRow_def)
  show ?thesis
    unfolding renderReport_rows count_list_append t hd r s by simp
qed

lemma generatePDF_cases:
  "generatePDF fb tz labours start end =
     (case computeStats fb tz labours start end of
        None \<Rightarrow> None
      | Some res \<Rightarrow> Some (renderReport start end res))"
  by (simp add: generatePDF_def)

text \<open>
  C9. For every statistics result the document is: the title, the period with the two
  date strings as given, and the line of working days and Sundays (\<open>titleLines\<close>); the
  header row with the six labels at the six columns; then the rows of the entries in
  their order, each at the same six columns, with a page break after a row where the next
  height would pass 280, the next row then being at height 20 (\<open>pageRows\<close>, \<open>rowY\<close>);
  then the file is saved. No row passes the height 280. Each label of the header row is
  written once in the whole document, before the first page break.
\<close>

theorem renderReport_layout:
  "renderReport start end res =
     titleLines start end (dr res) @ headerRow @ pageRows (stats res)
     @ [Save (''attendance_'' @ start @ ''_to_'' @ end @ ''.pdf'')]
   \<and> rowY 0 = startY + 8
   \<and> (\<forall>k. rowY (Suc k) = (if 280 < rowY k + 8 then 20 else rowY k + 8))
   \<and> (\<forall>k. rowY k \<le> 280)
   \<and> (\<forall>h \<in> set headerRow. h \<noteq> SetFontSize 10 \<longrightarrow>
         count_list (renderReport start end res) h = 1)"
  using renderReport_rows [of start "end" res] rowY_bounds header_once [of _ start "end" res]
  by (simp add: rowY_0 rowY_Suc nextY_def startY_def)

lemma String_eval: "String 0 = ''0''" "String 1 = ''1''" "String 2 = ''2''" "String 4 = ''4''"
  "String 6 = ''6''"
  by (simp_all add: String_def digits_small digitChar_def)

theorem renderReport_layout_witness:
  "renderReport ''2024-01-01'' ''2024-01-07''
     \<lparr>dr = \<lparr>totalDays = 7, sundays = 1, workingDays = 6\<rparr>,
      stats = [\<lparr>st_name = ''Asha'', st_present = 2, st_absent = 4, st_late = 1,
                st_workingDays = 6, st_sundays = 1\<rparr>,
               \<lparr>st_name = ''Ravi'', st_present = 0, st_absent = 6, st_late = 0,
                st_workingDays = 6, st_sundays = 1\<rparr>]\<rparr> =
   [SetFontSize 16, Text ''Labour Attendance Report'' 14 18, SetFontSize 10,
    Text (''Period: 2024-01-01 '' @ [CHR 0xE2, CHR 0x80, CHR 0x94] @ '' 2024-01-07'') 14 26,
    Text ''Working days: 6 | Sundays: 1'' 14 32,
    SetFontSize 10,
    Text ''Name'' 14 40, Text ''Present'' 70 40, Text ''Absent'' 110 40,
    Text ''Late Days'' 140 40, Text ''Working'' 170 40, Text ''Sundays'' 200 40,
    Text ''Asha'' 14 48, Text ''2'' 70 48, Text ''4'' 110 48,
    Text ''1'' 140 48, Text ''6'' 170 48, Text ''1'' 200 48,
    Text ''Ravi'' 14 56, Text ''0'' 70 56, Text ''6'' 110 56,
    Text ''0'' 140 56, Text ''6'' 170 56, Text ''1'' 200 56,
    Save ''attendance_2024-01-01_to_2024-01-07.pdf'']
   \<and> Text ''Name'' 14 40 \<in> set headerRow
   \<and> count_list (renderReport ''2024-01-01'' ''2024-01-07''
     \<lparr>dr = \<lparr>totalDays = 7, sundays = 1, workingDays = 6\<rparr>,
      stats = [\<lparr>st_name = ''Asha'', st_present = 2, st_absent = 4, st_late = 1,
                st_workingDays = 6, st_sundays = 1\<rparr>,
               \<lparr>st_name = ''Ravi'', st_present = 0, st_absent = 6, st_late = 0,
                st_workingDays = 6, st_sundays = 1\<rparr>]\<rparr>) (Text ''Name'' 14 40) = 1"
proof -
  let ?res = "\<lparr>dr = \<lparr>totalDays = 7, sundays = 1, workingDays = 6\<rparr>,
      stats = [\<lparr>st_name = ''Asha'', st_present = 2, st_absent = 4, st_late = 1,
                st_workingDays = 6, st_sundays = 1\<rparr>,
               \<lparr>st_name = ''Ravi'', st_present = 0, st_absent = 6, st_late = 0,
                st_workingDays = 6, st_sundays = 1\<rparr>]\<rparr>"
  have h: "Text ''Name'' 14 40 \<in> set headerRow"
    by (simp add: headerRow_def colX_def startY_def)
  have y: "rowY 0 = 48" "rowY (Suc 0) = 56"
    by (simp_all add: rowY_def)
  have u: "[0..<2] = [0, 1]"
    by (simp add: upt_conv_Cons)
  have rows: "pageRows [\<lparr>st_name = ''Asha'', st_present = 2, st_absent = 4, st_late = 1,
                st_workingDays = 6, st_sundays = 1\<rparr>,
               \<lparr>st_name = ''Ravi'', st_present = 0, st_absent = 6, st_late = 0,
                st_workingDays = 6, st_sundays = 1\<rparr>] =
    [Text ''Asha'' 14 48, Text ''2'' 70 48, Text ''4'' 110 48,
     Text ''1'' 140 48, Text ''6'' 170 48, Text ''1'' 200 48,
     Text ''Ravi'' 14 56, Text ''0'' 70 56, Text ''6'' 110 56,
     Text ''0'' 140 56, Text ''6'' 170 56, Text ''1'' 200 56]"
    by (simp add: pageRows_def u y rowTexts_def colX_def String_eval)
  from renderReport_layout [of "''2024-01-01''" "''2024-01-07''" ?res] h
  show ?thesis
    by (simp add: rows titleLines_def headerRow_def colX_def startY_def String_eval)
qed

end
